theory Spec2Isabelle
  imports Complex_Main "HOL-Library.Multiset"
begin

section \<open>JavaScript values\<close>

text \<open>
  The component receives its tree as a JSON-like value: null, a boolean, a number, a
  string, an array or an object. A property that a value does not have reads as
  \<open>undefined\<close>, which is \<open>None\<close> of \<open>field\<close> below. Numbers are modelled as
  integers, whose \<open>String()\<close> is the plain decimal numeral; rounding of doubles is not
  modelled. Identifiers are compared by value, which is what \<open>Set.has\<close> and
  \<open>Map.get\<close> do for strings, numbers and booleans.
\<close>

datatype json =
    JNull
  | JBool bool
  | JNum int
  | JStr string
  | JArr "json list"
  | JObj "(string \<times> json) list"

text \<open>\<open>!v\<close> is false exactly for the truthy values.\<close>

fun truthy :: "json \<Rightarrow> bool" where
  "truthy JNull = False"
| "truthy (JBool b) = b"
| "truthy (JNum n) = (n \<noteq> 0)"
| "truthy (JStr s) = (s \<noteq> [])"
| "truthy (JArr xs) = True"
| "truthy (JObj fs) = True"

text \<open>\<open>v && typeof v === 'object'\<close>: objects and arrays, not null.\<close>

fun object_like :: "json \<Rightarrow> bool" where
  "object_like (JArr xs) = True"
| "object_like (JObj fs) = True"
| "object_like v = False"

text \<open>
  \<open>node.k\<close> for the property names the component reads (\<open>id\<close>, \<open>label\<close>,
  \<open>name\<close>, \<open>children\<close>): only an object can have them.
\<close>

fun field :: "json \<Rightarrow> string \<Rightarrow> json option" where
  "field (JObj fs) k = map_of fs k"
| "field v k = None"

text \<open>\<open>a ?? b\<close>: \<open>b\<close> when \<open>a\<close> is undefined or null.\<close>

fun nullish :: "json option \<Rightarrow> json \<Rightarrow> json" where
  "nullish None d = d"
| "nullish (Some JNull) d = d"
| "nullish (Some v) d = v"

subsection \<open>Conversion to strings\<close>

definition digit :: "nat \<Rightarrow> char" where
  "digit d = ''0123456789'' ! d"

fun String_nat :: "nat \<Rightarrow> string" where
  "String_nat n = (if n < 10 then [digit n] else String_nat (n div 10) @ [digit (n mod 10)])"

declare String_nat.simps [simp del]

definition String_int :: "int \<Rightarrow> string" where
  "String_int i = (if i < 0 then CHR ''-'' # String_nat (nat (- i)) else String_nat (nat i))"

fun join :: "string \<Rightarrow> string list \<Rightarrow> string" where
  "join sep [] = []"
| "join sep [s] = s"
| "join sep (s # t # ss) = s @ sep @ join sep (t # ss)"

text \<open>
  \<open>String(v)\<close>. An array is the comma-joined list of its elements, null elements
  giving the empty string; an object is \<open>[object Object]\<close>.
\<close>

fun String_js :: "json \<Rightarrow> string" where
  "String_js JNull = ''null''"
| "String_js (JBool b) = (if b then ''true'' else ''false'')"
| "String_js (JNum n) = String_int n"
| "String_js (JStr s) = s"
| "String_js (JArr xs) = join '','' (map (\<lambda>x. if x = JNull then [] else String_js x) xs)"
| "String_js (JObj fs) = ''[object Object]''"

section \<open>The canonical tree\<close>

text \<open>
  A normalized node \<open>{ id, label, children }\<close>. The file \<open>MindMap.jsx\<close> holds two
  variants of the component; definitions that differ between them end in \<open>_v1\<close> (the
  first variant, with \<open>nodeRadius\<close> and \<open>onNodeExpand\<close>) and \<open>_v2\<close> (the second,
  with \<open>wrapText\<close>).
\<close>

datatype tnode = TNode (nid: json) (label: json) (children: "tnode list")

section \<open>Normalization\<close>

text \<open>
  \<open>normalizeTree\<close> walks the input depth first. The counter \<open>auto\<close> of the
  closure is passed through the walk: \<open>walk node auto\<close> returns the node (or
  \<open>None\<close> for \<open>null\<close>) and the counter after it. \<open>raw_children\<close> is
  \<open>Array.isArray(node.children) ? node.children : []\<close>, and \<open>absent\<close> tells
  when \<open>??\<close> takes its right-hand side.
\<close>

definition auto_id :: "nat \<Rightarrow> json" where
  "auto_id n = JStr (''auto_'' @ String_nat n)"

definition raw_children :: "json \<Rightarrow> json list" where
  "raw_children node = (case field node ''children'' of Some (JArr cs) \<Rightarrow> cs | _ \<Rightarrow> [])"

lemma size_map_of: "map_of fs k = Some v \<Longrightarrow> size v < Suc (size_list (size_prod (\<lambda>_. 0) size) fs)"
  by (induction fs) (auto split: if_splits)

lemma size_raw_children: "object_like node \<Longrightarrow> size_list size (raw_children node) < size node"
  by (cases node) (auto simp: raw_children_def split: option.splits json.splits dest!: size_map_of)

fun absent :: "json option \<Rightarrow> bool" where
  "absent None = True"
| "absent (Some JNull) = True"
| "absent (Some v) = False"

fun survives_v1 :: "tnode option \<Rightarrow> bool" where
  "survives_v1 None = False"
| "survives_v1 (Some c) = truthy (nid c)"

function walk_v1 :: "json \<Rightarrow> nat \<Rightarrow> tnode option \<times> nat"
  and walks_v1 :: "json list \<Rightarrow> nat \<Rightarrow> tnode option list \<times> nat" where
  "walk_v1 node auto =
     (if \<not> object_like node then (None, auto)
      else
        let (i, auto1) = (if absent (field node ''id'') then (auto_id auto, Suc auto)
                          else (the (field node ''id''), auto));
            lbl = nullish (field node ''label'') (nullish (field node ''name'') (JStr (String_js i)));
            raw = raw_children node;
            (rs, auto2) = walks_v1 raw auto1;
            children = map the (filter survives_v1 rs)
        in (Some (TNode i lbl children), auto2))"
| "walks_v1 [] auto = ([], auto)"
| "walks_v1 (c # cs) auto =
     (let (r, auto1) = walk_v1 c auto;
          (rs, auto2) = walks_v1 cs auto1
      in (r # rs, auto2))"
  by pat_completeness auto
termination
  by (relation "measure (\<lambda>s. case s of Inl (n, a) \<Rightarrow> 2 * size n | Inr (cs, a) \<Rightarrow> 2 * size_list size cs + 1)")
     (auto dest: size_raw_children)

lemma size_raw_children_le: "size_list size (raw_children node) \<le> size node"
  by (cases node) (auto simp: raw_children_def split: option.splits json.splits dest!: size_map_of)

function walk_v2 :: "json \<Rightarrow> nat \<Rightarrow> tnode option \<times> nat"
  and walks_v2 :: "json list \<Rightarrow> nat \<Rightarrow> tnode option list \<times> nat" where
  "walk_v2 node auto =
     (if \<not> truthy node then (None, auto)
      else
        let (i, auto1) = (if absent (field node ''id'') then (auto_id auto, Suc auto)
                          else (the (field node ''id''), auto));
            lbl = nullish (field node ''label'') (nullish (field node ''name'') (JStr (String_js i)));
            (rs, auto2) = walks_v2 (raw_children node) auto1;
            children = map the (filter (\<lambda>r. r \<noteq> None) rs)
        in (Some (TNode i lbl children), auto2))"
| "walks_v2 [] auto = ([], auto)"
| "walks_v2 (c # cs) auto =
     (let (r, auto1) = walk_v2 c auto;
          (rs, auto2) = walks_v2 cs auto1
      in (r # rs, auto2))"
  by pat_completeness auto
termination
  by (relation "measure (\<lambda>s. case s of Inl (n, a) \<Rightarrow> 2 * size n + 2 | Inr (cs, a) \<Rightarrow> 2 * size_list size cs + 1)")
     (auto simp: size_raw_children_le le_imp_less_Suc)

definition normalizeTree_v1 :: "json \<Rightarrow> tnode option" where
  "normalizeTree_v1 input = (if \<not> object_like input then None else fst (walk_v1 input 0))"

definition normalizeTree_v2 :: "json \<Rightarrow> tnode option" where
  "normalizeTree_v2 input = (if \<not> object_like input then None else fst (walk_v2 input 0))"

fun ids_pre :: "tnode \<Rightarrow> json list" where
  "ids_pre (TNode i l cs) = i # concat (map ids_pre cs)"

lemma raw_children_object_like: "x \<in> set (raw_children node) \<Longrightarrow> object_like node"
  by (cases node) (auto simp: raw_children_def)

lemma size_in_raw_children: "x \<in> set (raw_children node) \<Longrightarrow> size x < size node"
  using size_raw_children [of node] size_list_estimation' [of x "raw_children node" "size x" size]
  by (simp add: raw_children_object_like)

function given_ids :: "json \<Rightarrow> json list" where
  "given_ids node =
     (if absent (field node ''id'') then [] else [the (field node ''id'')])
     @ concat (map given_ids (raw_children node))"
  by pat_completeness auto
termination
  by (relation "measure size") (auto dest: size_in_raw_children)

declare given_ids.simps [simp del]

section \<open>Visibility\<close>

text \<open>
  \<open>collectExpandableIds\<close> adds to the set the id of every node that has children;
  the set object it mutates is passed through. A \<open>tnode\<close> is never \<open>null\<close>, so
  the guard \<open>if (!node)\<close> of these functions is their caller's: the component calls
  them only when \<open>safeData\<close> is not null.
\<close>

fun collectExpandableIds :: "tnode \<Rightarrow> json set \<Rightarrow> json set" where
  "collectExpandableIds (TNode i l cs) s =
     fold collectExpandableIds cs (if cs \<noteq> [] then insert i s else s)"

definition expandableIds_of :: "tnode option \<Rightarrow> json set" where
  "expandableIds_of safeData = (case safeData of None \<Rightarrow> {} | Some t \<Rightarrow> collectExpandableIds t {})"

fun buildVisibleTree_v1 :: "tnode \<Rightarrow> json set \<Rightarrow> tnode" where
  "buildVisibleTree_v1 (TNode i l cs) expanded =
     (let kids = filter (\<lambda>c. truthy (nid c)) cs
      in if kids = [] then TNode i l []
         else if i \<notin> expanded then TNode i l []
         else TNode i l (map (\<lambda>c. buildVisibleTree_v1 c expanded) kids))"

fun buildVisibleTree_v2 :: "tnode \<Rightarrow> json set \<Rightarrow> tnode" where
  "buildVisibleTree_v2 (TNode i l cs) expanded =
     (if i \<notin> expanded then TNode i l []
      else TNode i l (map (\<lambda>c. buildVisibleTree_v2 c expanded) cs))"

definition visibleData_v1 :: "tnode option \<Rightarrow> json set \<Rightarrow> tnode option" where
  "visibleData_v1 safeData expanded = map_option (\<lambda>t. buildVisibleTree_v1 t expanded) safeData"

definition visibleData_v2 :: "tnode option \<Rightarrow> json set \<Rightarrow> tnode option" where
  "visibleData_v2 safeData expanded = map_option (\<lambda>t. buildVisibleTree_v2 t expanded) safeData"

section \<open>The hierarchy library\<close>

text \<open>
  The component lays the visible tree out with \<open>d3-hierarchy\<close>, a dependency that is
  not part of the repository. What the component uses of it is modelled as follows.
  \<open>hierarchy(data)\<close> wraps every node of the data in a node with \<open>data\<close>,
  \<open>depth\<close> and \<open>children\<close>; \<open>tree().nodeSize([dx, dy])\<close> gives every node
  coordinates \<open>x\<close> and \<open>y\<close>. The coordinates are a parameter of the model:
  \<open>pos p\<close> is the pair \<open>(x, y)\<close> given to the node reached from the root by the
  child indices \<open>p\<close>. \<open>descendants()\<close> lists the nodes in breadth-first order, and
  \<open>links()\<close> lists, in the same order, a pair of parent and node for every node but
  the root; the traversal \<open>bfs\<close> carries each node with its parent.
\<close>

datatype hnode = HNode (hdata: tnode) (hdepth: nat) (hx: real) (hy: real) (hchildren: "hnode list")

fun place :: "(nat list \<Rightarrow> real \<times> real) \<Rightarrow> nat \<Rightarrow> nat list \<Rightarrow> tnode \<Rightarrow> hnode"
  and place_kids :: "(nat list \<Rightarrow> real \<times> real) \<Rightarrow> nat \<Rightarrow> nat list \<Rightarrow> nat \<Rightarrow> tnode list \<Rightarrow> hnode list" where
  "place pos d p (TNode i l cs) =
     HNode (TNode i l cs) d (fst (pos p)) (snd (pos p)) (place_kids pos (Suc d) p 0 cs)"
| "place_kids pos d p k [] = []"
| "place_kids pos d p k (c # cs) = place pos d (p @ [k]) c # place_kids pos d p (Suc k) cs"

lemma size_hchildren: "sum_list (map size (hchildren n)) < size n"
  by (cases n) (simp add: size_list_conv_sum_list)

lemma size_paired: "sum_list (map (\<lambda>e. size (snd e)) (map (\<lambda>c. (q, c)) ks)) = sum_list (map size ks)"
  by (induction ks) auto

lemma size_bfs_level:
  "sum_list (map (\<lambda>e. size (snd e)) (concat (map (\<lambda>(p, n). map (\<lambda>c. (Some n, c)) (hchildren n)) es)))
     \<le> sum_list (map (\<lambda>e. size (snd e)) es)"
proof (induction es)
  case Nil
  then show ?case by simp
next
  case (Cons e es)
  obtain p n where e: "e = (p, n)" by (cases e)
  from size_hchildren [of n] Cons e show ?case
    by (simp add: size_paired del: map_map)
qed

function bfs :: "(hnode option \<times> hnode) list \<Rightarrow> (hnode option \<times> hnode) list" where
  "bfs [] = []"
| "bfs (e # es) =
     (e # es) @ bfs (concat (map (\<lambda>(p, n). map (\<lambda>c. (Some n, c)) (hchildren n)) (e # es)))"
  by pat_completeness auto
termination
proof (relation "measure (\<lambda>es. sum_list (map (\<lambda>e. size (snd e)) es))", goal_cases)
  case 1
  then show ?case by simp
next
  case (2 e es)
  obtain p n where e: "e = (p, n)" by (cases e)
  from size_hchildren [of n] size_bfs_level [of es] e show ?case
    by (simp add: size_paired del: map_map)
qed

definition descendants :: "hnode \<Rightarrow> hnode list" where
  "descendants rt = map snd (bfs [(None, rt)])"

definition hlinks :: "hnode \<Rightarrow> (hnode \<times> hnode) list" where
  "hlinks rt = concat (map (\<lambda>(p, n). case p of None \<Rightarrow> [] | Some s \<Rightarrow> [(s, n)]) (bfs [(None, rt)]))"

section \<open>Numbers\<close>

text \<open>
  The bounds scan starts from \<open>Infinity\<close> and \<open>-Infinity\<close>, and
  \<open>Math.max()\<close> of no arguments is \<open>-Infinity\<close>, so the numbers of the layout
  are the reals together with the two infinities and \<open>NaN\<close>. Sums, differences,
  comparisons, \<open>Math.min\<close> and \<open>Math.max\<close> follow JavaScript on the infinities
  and \<open>NaN\<close>; on finite numbers they are exact, the rounding of doubles is not
  modelled.
\<close>

datatype jsnum = NaN | NegInf | Fin real | PosInf

instantiation jsnum :: "{plus, minus, uminus, ord}"
begin

fun plus_jsnum :: "jsnum \<Rightarrow> jsnum \<Rightarrow> jsnum" where
  "plus_jsnum (Fin a) (Fin b) = Fin (a + b)"
| "plus_jsnum NaN b = NaN"
| "plus_jsnum a NaN = NaN"
| "plus_jsnum PosInf NegInf = NaN"
| "plus_jsnum NegInf PosInf = NaN"
| "plus_jsnum PosInf b = PosInf"
| "plus_jsnum a PosInf = PosInf"
| "plus_jsnum NegInf b = NegInf"
| "plus_jsnum a NegInf = NegInf"

fun uminus_jsnum :: "jsnum \<Rightarrow> jsnum" where
  "uminus_jsnum NaN = NaN"
| "uminus_jsnum NegInf = PosInf"
| "uminus_jsnum (Fin a) = Fin (- a)"
| "uminus_jsnum PosInf = NegInf"

definition minus_jsnum :: "jsnum \<Rightarrow> jsnum \<Rightarrow> jsnum" where
  "minus_jsnum a b = a + (- b)"

fun less_eq_jsnum :: "jsnum \<Rightarrow> jsnum \<Rightarrow> bool" where
  "less_eq_jsnum NaN b = False"
| "less_eq_jsnum a NaN = False"
| "less_eq_jsnum NegInf b = True"
| "less_eq_jsnum a PosInf = True"
| "less_eq_jsnum (Fin a) (Fin b) = (a \<le> b)"
| "less_eq_jsnum a b = False"

fun less_jsnum :: "jsnum \<Rightarrow> jsnum \<Rightarrow> bool" where
  "less_jsnum NaN b = False"
| "less_jsnum a NaN = False"
| "less_jsnum (Fin a) (Fin b) = (a < b)"
| "less_jsnum PosInf b = False"
| "less_jsnum a NegInf = False"
| "less_jsnum a b = True"

instance ..

end

fun Math_min :: "jsnum \<Rightarrow> jsnum \<Rightarrow> jsnum" where
  "Math_min NaN b = NaN"
| "Math_min a NaN = NaN"
| "Math_min NegInf b = NegInf"
| "Math_min a NegInf = NegInf"
| "Math_min PosInf b = b"
| "Math_min a PosInf = a"
| "Math_min (Fin a) (Fin b) = Fin (min a b)"

fun Math_max :: "jsnum \<Rightarrow> jsnum \<Rightarrow> jsnum" where
  "Math_max NaN b = NaN"
| "Math_max a NaN = NaN"
| "Math_max PosInf b = PosInf"
| "Math_max a PosInf = PosInf"
| "Math_max NegInf b = b"
| "Math_max a NegInf = a"
| "Math_max (Fin a) (Fin b) = Fin (max a b)"

text \<open>\<open>Math.max(...vs)\<close>.\<close>

definition Math_max_all :: "jsnum list \<Rightarrow> jsnum" where
  "Math_max_all vs = fold (\<lambda>v acc. Math_max acc v) vs NegInf"


section \<open>Layout\<close>

subsection \<open>Positioned nodes, links and bounds\<close>

text \<open>
  The objects the layout returns. A positioned node has the fields of its object literal
  (\<open>id\<close> and \<open>label\<close> are \<open>pid\<close> and \<open>plabel\<close> here); the second variant
  adds \<open>lines\<close>, and its bounds have no \<open>minX\<close> and \<open>minY\<close>. The props are
  those the layout reads; \<open>props\<close> are the second variant's, \<open>props1\<close> the first's.
\<close>

record point =
  x :: jsnum
  y :: jsnum

record pnode = point +
  pid :: json
  plabel :: json
  depth :: nat
  hasChildren :: bool
  boxW :: jsnum
  boxH :: real

record pnode2 = pnode +
  lines :: "string list"

record link =
  lid :: string
  source :: point
  target :: point

record bounds =
  maxX :: jsnum
  maxY :: jsnum

record bounds1 = bounds +
  minX :: jsnum
  minY :: jsnum

record ('n, 'b) layout =
  nodes :: "'n list"
  links :: "link list"
  bounds :: 'b

record props =
  nodeSpacing_x :: real
  nodeSpacing_y :: real
  padding :: real

record props1 = props +
  nodeRadius :: real
  nodeLabelGap :: real

text \<open>
  \<open>byId.get\<close> returns \<open>undefined\<close> for a key that is not in the map, and reading
  \<open>s.x\<close> from it throws.
\<close>

datatype error = TypeError

text \<open>
  The coordinates that \<open>tree().nodeSize(nodeSize)\<close> gives to the nodes of a data
  tree, by path; \<open>d3_tree\<close> is \<open>hierarchy\<close> followed by the tree layout.
\<close>

type_synonym tree_fn = "real \<times> real \<Rightarrow> tnode \<Rightarrow> nat list \<Rightarrow> real \<times> real"

definition d3_tree :: "tree_fn \<Rightarrow> real \<times> real \<Rightarrow> tnode \<Rightarrow> hnode" where
  "d3_tree tree_fn nodeSize visibleData = place (tree_fn nodeSize visibleData) 0 [] visibleData"

text \<open>\<open>new Map(entries)\<close>: of two entries with the same key the later one stays.\<close>

definition Map_of :: "('k \<times> 'v) list \<Rightarrow> 'k \<rightharpoonup> 'v" where
  "Map_of entries = map_of (rev entries)"

text \<open>The shift of a node by \<open>(shiftX, shiftY)\<close>, in either variant.\<close>

definition shift_node :: "jsnum \<Rightarrow> jsnum \<Rightarrow> ('a pnode_scheme) \<Rightarrow> ('a pnode_scheme)" where
  "shift_node shiftX shiftY n = n\<lparr>x := x n + shiftX, y := y n + shiftY\<rparr>"

subsection \<open>The first variant\<close>

text \<open>
  \<open>node_v1\<close> is the function mapped over \<open>descendants()\<close>, \<open>scan_v1\<close> the
  body of the loop over the nodes that widens \<open>minX, maxX, minY, maxY\<close>, and
  \<open>link_v1\<close> the function mapped over \<open>links()\<close>.
\<close>

definition LABEL_X :: "props1 \<Rightarrow> real" where
  "LABEL_X P = nodeRadius P + nodeLabelGap P"

definition node_v1 :: "json set \<Rightarrow> hnode \<Rightarrow> pnode" where
  "node_v1 expandableIds n =
     (let lbl = nullish (Some (label (hdata n))) (nid (hdata n));
          paddingX = 14;
          paddingY = 10;
          textW = min 640 (max 90 (real (length (String_js lbl)) * 7.2));
          boxW = textW + paddingX * 2;
          boxH = 34 + paddingY
      in \<lparr>x = Fin (hy n), y = Fin (hx n), pid = nid (hdata n), plabel = lbl, depth = hdepth n,
          hasChildren = (nid (hdata n) \<in> expandableIds), boxW = Fin boxW, boxH = boxH\<rparr>)"

definition scan_v1 :: "props1 \<Rightarrow> pnode \<Rightarrow> jsnum \<times> jsnum \<times> jsnum \<times> jsnum \<Rightarrow> jsnum \<times> jsnum \<times> jsnum \<times> jsnum" where
  "scan_v1 P n acc =
     (let (minX, maxX, minY, maxY) = acc;
          left = x n;
          right = x n + Fin (LABEL_X P) + boxW n;
          top = y n - Fin (boxH n / 2);
          bottom = y n + Fin (boxH n / 2)
      in (Math_min minX left, Math_max maxX right, Math_min minY top, Math_max maxY bottom))"

definition link_v1 :: "props1 \<Rightarrow> (json \<rightharpoonup> pnode) \<Rightarrow> hnode \<times> hnode \<Rightarrow> link option" where
  "link_v1 P byId l =
     (case byId (nid (hdata (fst l))) of
        None \<Rightarrow> None
      | Some s \<Rightarrow>
          (case byId (nid (hdata (snd l))) of
             None \<Rightarrow> None
           | Some tnode \<Rightarrow>
               let sAttach = \<lparr>x = x s + Fin (LABEL_X P) + boxW s, y = y s\<rparr>;
                   tAttach = \<lparr>x = x tnode + Fin (LABEL_X P), y = y tnode\<rparr>
               in Some \<lparr>lid = String_js (pid s) @ ''__'' @ String_js (pid tnode),
                         source = sAttach, target = tAttach\<rparr>))"

definition layout_v1 ::
  "tree_fn \<Rightarrow> props1 \<Rightarrow> json set \<Rightarrow> tnode option \<Rightarrow> error + (pnode, bounds1) layout" where
  "layout_v1 tree_fn P expandableIds visibleData =
     (case visibleData of
        None \<Rightarrow> Inr \<lparr>nodes = [], links = [],
                      bounds = \<lparr>maxX = Fin 1000, maxY = Fin 600, minX = Fin 0, minY = Fin 0\<rparr>\<rparr>
      | Some vd \<Rightarrow>
          let t = d3_tree tree_fn (nodeSpacing_y P, nodeSpacing_x P) vd;
              dn = descendants t;
              lk = hlinks t;
              nodes = map (node_v1 expandableIds) dn;
              (minX, maxX, minY, maxY) = fold (scan_v1 P) nodes (PosInf, NegInf, PosInf, NegInf);
              shiftX = Fin (padding P) - minX;
              shiftY = Fin (padding P) - minY;
              shiftedNodes = map (shift_node shiftX shiftY) nodes;
              byId = Map_of (map (\<lambda>n. (pid n, n)) shiftedNodes)
          in case those (map (link_v1 P byId) lk) of
               None \<Rightarrow> Inl TypeError
             | Some lks \<Rightarrow>
                 Inr \<lparr>nodes = shiftedNodes, links = lks,
                      bounds = \<lparr>maxX = maxX + shiftX + Fin (padding P),
                                 maxY = maxY + shiftY + Fin (padding P),
                                 minX = Fin (padding P), minY = Fin (padding P)\<rparr>\<rparr>)"

definition default_props1 :: props1 where
  "default_props1 = \<lparr>nodeSpacing_x = 360, nodeSpacing_y = 120, padding = 60, nodeRadius = 7, nodeLabelGap = 14\<rparr>"

subsection \<open>Text measurement\<close>

text \<open>
  \<open>measureText\<close> returns 100 where there is no \<open>document\<close>. Otherwise it keeps
  one canvas in \<open>measureText.canvas\<close>, assigns its argument \<open>font\<close> to the
  \<open>font\<close> of the canvas context and returns the width the context measures. The state
  it leaves behind is the canvas: \<open>None\<close> before the first call, then the font of
  the context. The document is given by the width its canvas contexts measure for a font and
  a text. The argument \<open>font\<close> is \<open>None\<close> when the caller passes none, and then
  it is \<open>FONT\<close>; \<open>lines.map(measureText)\<close> passes the index of the line, a
  number, which is no font, and a canvas context ignores the assignment of a value that
  is no font.
\<close>

definition FONT :: string where "FONT = ''16px ui-sans-serif, system-ui''"
definition LINE_HEIGHT :: real where "LINE_HEIGHT = 20"
definition MAX_TEXT_WIDTH :: real where "MAX_TEXT_WIDTH = 260"
definition PADDING_X :: real where "PADDING_X = 22"
definition PADDING_Y :: real where "PADDING_Y = 18"
definition CONNECTOR_RADIUS :: real where "CONNECTOR_RADIUS = 9"

type_synonym canvas = "string option"
type_synonym document = "(string \<Rightarrow> string \<Rightarrow> real) option"

definition measureText :: "document \<Rightarrow> string \<Rightarrow> nat option \<Rightarrow> canvas \<Rightarrow> real \<times> canvas" where
  "measureText doc text font canvas =
     (case doc of
        None \<Rightarrow> (100, canvas)
      | Some width \<Rightarrow>
          let current = (case canvas of None \<Rightarrow> ''10px sans-serif'' | Some f \<Rightarrow> f);
              ctx_font = (case font of None \<Rightarrow> FONT | Some i \<Rightarrow> current)
          in (width ctx_font text, Some ctx_font))"

text \<open>\<open>s.split(' ')\<close>.\<close>

function split_space :: "string \<Rightarrow> string list" where
  "split_space s =
     (case dropWhile (\<lambda>c. c \<noteq> CHR '' '') s of
        [] \<Rightarrow> [s]
      | sp # rest \<Rightarrow> takeWhile (\<lambda>c. c \<noteq> CHR '' '') s # split_space rest)"
  by pat_completeness auto
termination
proof (relation "measure length", goal_cases)
  case 1
  then show ?case by simp
next
  case (2 s sp rest)
  have "length (dropWhile (\<lambda>c. c \<noteq> CHR '' '') s) \<le> length s"
    by (rule length_dropWhile_le)
  with 2 show ?case by simp
qed

declare split_space.simps [simp del]

text \<open>
  \<open>wrapText\<close>: \<open>wrap_step\<close> is the body of the loop over the words, on the lines
  pushed so far, the current line and the canvas.
\<close>

definition wrap_step ::
  "document \<Rightarrow> real \<Rightarrow> string \<Rightarrow> string list \<times> string \<times> canvas \<Rightarrow> string list \<times> string \<times> canvas" where
  "wrap_step doc maxWidth word state =
     (let (lines, line, canvas) = state;
          test = (if line \<noteq> [] then line @ '' '' @ word else word);
          (w, canvas1) = measureText doc test None canvas
      in if w > maxWidth \<and> line \<noteq> [] then (lines @ [line], word, canvas1)
         else (lines, test, canvas1))"

definition wrapText :: "document \<Rightarrow> json \<Rightarrow> real \<Rightarrow> canvas \<Rightarrow> string list \<times> canvas" where
  "wrapText doc text maxWidth canvas =
     (let words = split_space (String_js text);
          (lines, line, canvas1) = fold (wrap_step doc maxWidth) words ([], [], canvas)
      in (if line \<noteq> [] then lines @ [line] else lines, canvas1))"

subsection \<open>The second variant\<close>

text \<open>
  \<open>map_measureText\<close> is \<open>lines.map(measureText)\<close>, \<open>node_v2\<close> the function
  mapped over \<open>descendants()\<close> and \<open>nodes_v2\<close> that map, which passes the canvas
  from node to node; \<open>scan_v2\<close> and \<open>link_v2\<close> are as in the first variant.
\<close>

fun map_measureText :: "document \<Rightarrow> string list \<Rightarrow> nat \<Rightarrow> canvas \<Rightarrow> real list \<times> canvas" where
  "map_measureText doc [] i canvas = ([], canvas)"
| "map_measureText doc (l # ls) i canvas =
     (let (w, canvas1) = measureText doc l (Some i) canvas;
          (ws, canvas2) = map_measureText doc ls (Suc i) canvas1
      in (w # ws, canvas2))"

definition node_v2 :: "document \<Rightarrow> json set \<Rightarrow> hnode \<Rightarrow> canvas \<Rightarrow> pnode2 \<times> canvas" where
  "node_v2 doc expandableIds n canvas =
     (let (lines, canvas1) = wrapText doc (label (hdata n)) MAX_TEXT_WIDTH canvas;
          (widths, canvas2) = map_measureText doc lines 0 canvas1;
          textWidth = Math_max_all (map Fin widths);
          boxW = textWidth + Fin (PADDING_X * 2);
          boxH = real (length lines) * LINE_HEIGHT + PADDING_Y * 2
      in (\<lparr>x = Fin (hy n), y = Fin (hx n), pid = nid (hdata n), plabel = label (hdata n),
           depth = hdepth n, hasChildren = (nid (hdata n) \<in> expandableIds),
           boxW = boxW, boxH = boxH, lines = lines\<rparr>, canvas2))"

fun nodes_v2 :: "document \<Rightarrow> json set \<Rightarrow> hnode list \<Rightarrow> canvas \<Rightarrow> pnode2 list \<times> canvas" where
  "nodes_v2 doc expandableIds [] canvas = ([], canvas)"
| "nodes_v2 doc expandableIds (n # ns) canvas =
     (let (p, canvas1) = node_v2 doc expandableIds n canvas;
          (ps, canvas2) = nodes_v2 doc expandableIds ns canvas1
      in (p # ps, canvas2))"

definition scan_v2 :: "pnode2 \<Rightarrow> jsnum \<times> jsnum \<times> jsnum \<times> jsnum \<Rightarrow> jsnum \<times> jsnum \<times> jsnum \<times> jsnum" where
  "scan_v2 n acc =
     (let (minX, minY, maxX, maxY) = acc
      in (Math_min minX (x n),
          Math_min minY (y n - Fin (boxH n / 2)),
          Math_max maxX (x n + boxW n + Fin 40),
          Math_max maxY (y n + Fin (boxH n / 2))))"

definition link_v2 :: "(json \<rightharpoonup> pnode2) \<Rightarrow> hnode \<times> hnode \<Rightarrow> link option" where
  "link_v2 byId l =
     (case byId (nid (hdata (fst l))) of
        None \<Rightarrow> None
      | Some s \<Rightarrow>
          (case byId (nid (hdata (snd l))) of
             None \<Rightarrow> None
           | Some t \<Rightarrow>
               Some \<lparr>lid = String_js (pid s) @ ''-'' @ String_js (pid t),
                     source = \<lparr>x = x s, y = y s\<rparr>,
                     target = \<lparr>x = x t + Fin CONNECTOR_RADIUS, y = y t\<rparr>\<rparr>))"

definition layout_v2 ::
  "tree_fn \<Rightarrow> document \<Rightarrow> props \<Rightarrow> json set \<Rightarrow> tnode option \<Rightarrow> canvas
     \<Rightarrow> (error + (pnode2, bounds) layout) \<times> canvas" where
  "layout_v2 tree_fn doc P expandableIds visibleData canvas =
     (case visibleData of
        None \<Rightarrow> (Inr \<lparr>nodes = [], links = [], bounds = \<lparr>maxX = Fin 1200, maxY = Fin 800\<rparr>\<rparr>, canvas)
      | Some vd \<Rightarrow>
          let rt = d3_tree tree_fn (nodeSpacing_y P, nodeSpacing_x P) vd;
              (nodes, canvas1) = nodes_v2 doc expandableIds (descendants rt) canvas;
              (minX, minY, maxX, maxY) = fold scan_v2 nodes (PosInf, PosInf, NegInf, NegInf);
              shiftX = Fin (padding P) - minX;
              shiftY = Fin (padding P) - minY;
              nodes = map (shift_node shiftX shiftY) nodes;
              byId = Map_of (map (\<lambda>n. (pid n, n)) nodes)
          in case those (map (link_v2 byId) (hlinks rt)) of
               None \<Rightarrow> (Inl TypeError, canvas1)
             | Some lks \<Rightarrow>
                 (Inr \<lparr>nodes = nodes, links = lks,
                       bounds = \<lparr>maxX = maxX + shiftX + Fin (padding P),
                                  maxY = maxY + shiftY + Fin (padding P)\<rparr>\<rparr>, canvas1))"

definition default_props :: props where
  "default_props = \<lparr>nodeSpacing_x = 380, nodeSpacing_y = 140, padding = 80\<rparr>"

subsection \<open>A tidy-tree routine\<close>

text \<open>
  Modelled from the spec: the tidy-tree positioning routine, which in the source is
  \<open>tree()\<close> of \<open>d3-hierarchy\<close> and not part of the repository. One pass bottom-up
  computes the extent each subtree needs along the order axis (\<open>extent\<close>, in units of
  the sibling gap: a leaf needs one unit, an inner node the sum of its children's). One
  pass top-down gives every subtree its interval of that extent, the children's intervals
  side by side in input order; a leaf sits in the middle of its interval and a parent over
  the median of its children's positions. The depth index is the length of the path. The
  coordinates are the order position times the sibling gap and the depth index times the
  level gap.
\<close>

fun extent :: "tnode \<Rightarrow> nat" where
  "extent (TNode i l cs) = (if cs = [] then 1 else sum_list (map extent cs))"

definition median :: "real list \<Rightarrow> real" where
  "median os =
     (let n = length os
      in if odd n then os ! (n div 2) else (os ! (n div 2 - 1) + os ! (n div 2)) / 2)"

fun order_at :: "tnode \<Rightarrow> real \<Rightarrow> real"
  and orders :: "tnode list \<Rightarrow> real \<Rightarrow> real list" where
  "order_at (TNode i l cs) lo = (if cs = [] then lo + 1 / 2 else median (orders cs lo))"
| "orders [] lo = []"
| "orders (c # cs) lo = order_at c lo # orders cs (lo + real (extent c))"

fun order_path :: "tnode \<Rightarrow> real \<Rightarrow> nat list \<Rightarrow> real" where
  "order_path t lo [] = order_at t lo"
| "order_path t lo (k # p) =
     (if k < length (children t)
      then order_path (children t ! k) (lo + real (sum_list (map extent (take k (children t))))) p
      else 0)"

definition tidy_tree :: tree_fn where
  "tidy_tree nodeSize t p = (fst nodeSize * order_path t 0 p, snd nodeSize * real (length p))"

section \<open>Interaction: toggle\<close>

text \<open>
  \<open>toggle\<close> is the state update passed to \<open>setExpanded\<close>, on the expanded set
  \<open>prev\<close>. The first variant also reports \<open>(id, !wasExpanded)\<close> to
  \<open>onNodeExpand\<close> when the host gave that callback; the calls made are returned as a
  list.
\<close>

definition toggle_v1 ::
  "json set \<Rightarrow> bool \<Rightarrow> json \<Rightarrow> json set \<Rightarrow> json set \<times> (json \<times> bool) list" where
  "toggle_v1 expandableIds onNodeExpand i prev =
     (if i \<notin> expandableIds then (prev, [])
      else
        let wasExpanded = (i \<in> prev);
            next = (if wasExpanded then prev - {i} else insert i prev)
        in (next, if onNodeExpand then [(i, \<not> wasExpanded)] else []))"

definition toggle_v2 :: "json set \<Rightarrow> json \<Rightarrow> json set \<Rightarrow> json set" where
  "toggle_v2 expandableIds i prev =
     (if i \<notin> expandableIds then prev
      else if i \<in> prev then prev - {i} else insert i prev)"

section \<open>Properties of toggle\<close>

text \<open>
  C9. For every id and every expanded set, in both variants: \<open>toggle\<close> leaves the set
  unchanged if the id is not expandable; otherwise it flips the membership of that id, and
  the membership of every other id is the same before and after. The first variant then
  notifies the host, when it listens, of the id and its new state, once.
\<close>

theorem toggle_frame:
  "(i \<notin> E \<longrightarrow> toggle_v2 E i prev = prev \<and> toggle_v1 E cb i prev = (prev, []))
   \<and> (i \<in> E \<longrightarrow>
        ((i \<in> toggle_v2 E i prev) = (i \<notin> prev))
      \<and> ((i \<in> fst (toggle_v1 E cb i prev)) = (i \<notin> prev))
      \<and> (\<forall>j. j \<noteq> i \<longrightarrow> (j \<in> toggle_v2 E i prev) = (j \<in> prev)
                     \<and> (j \<in> fst (toggle_v1 E cb i prev)) = (j \<in> prev))
      \<and> snd (toggle_v1 E cb i prev) = (if cb then [(i, i \<notin> prev)] else []))"
  by (auto simp: toggle_v1_def toggle_v2_def Let_def)

theorem toggle_frame_witness:
  "JStr ''r'' \<in> {JStr ''r''}
   \<and> toggle_v2 {JStr ''r''} (JStr ''r'') {JStr ''a''} = {JStr ''r'', JStr ''a''}
   \<and> toggle_v1 {JStr ''r''} True (JStr ''r'') {JStr ''a''}
       = ({JStr ''r'', JStr ''a''}, [(JStr ''r'', True)])
   \<and> JStr ''b'' \<notin> {JStr ''r''}
   \<and> toggle_v2 {JStr ''r''} (JStr ''b'') {JStr ''a''} = {JStr ''a''}"
  using toggle_frame [of "JStr ''r''" "{JStr ''r''}" "{JStr ''a''}" True]
        toggle_frame [of "JStr ''b''" "{JStr ''r''}" "{JStr ''a''}" True]
  by (simp add: toggle_v1_def toggle_v2_def)

section \<open>Properties of normalization\<close>

subsection \<open>Synthesized ids are pairwise different\<close>

text \<open>\<open>String_nat\<close> has a left inverse, so \<open>auto_<n>\<close> determines \<open>n\<close>.\<close>

definition nat_of_string :: "string \<Rightarrow> nat" where
  "nat_of_string s = foldl (\<lambda>a c. 10 * a + (of_char c - 48)) 0 s"

lemma of_char_digit:
  assumes "d < 10"
  shows "of_char (digit d) = (48 + d :: nat)"
proof -
  from assms have "d = 0 \<or> d = 1 \<or> d = 2 \<or> d = 3 \<or> d = 4 \<or> d = 5 \<or> d = 6 \<or> d = 7 \<or> d = 8 \<or> d = 9"
    by arith
  then show ?thesis
    by (elim disjE) (simp_all add: digit_def)
qed

lemma nat_of_string_String_nat: "nat_of_string (String_nat n) = n"
proof (induction n rule: String_nat.induct)
  case (1 n)
  show ?case
  proof (cases "n < 10")
    case True
    then show ?thesis
      by (subst String_nat.simps) (simp add: nat_of_string_def of_char_digit)
  next
    case False
    with 1 have "nat_of_string (String_nat (n div 10)) = n div 10" by simp
    with False show ?thesis
      by (subst String_nat.simps) (simp add: nat_of_string_def of_char_digit)
  qed
qed

lemma String_nat_inj: "String_nat m = String_nat n \<Longrightarrow> m = n"
  by (metis nat_of_string_String_nat)

lemma auto_id_inj: "auto_id m = auto_id n \<Longrightarrow> m = n"
  by (simp add: auto_id_def String_nat_inj)

lemma distinct_auto_ids: "distinct (map auto_id [a..<b])"
  by (simp add: distinct_map inj_on_def auto_id_inj)

subsection \<open>Where the ids of the output come from\<close>

text \<open>
  Every id of the output is an id given in the input or one of the ids synthesized during
  the walk, each counted once: the ids of the output form a sub-multiset of the given ids
  together with \<open>auto_a, \<dots>, auto_(a'-1)\<close>, where \<open>a\<close> and \<open>a'\<close> are the
  counter before and after.
\<close>

fun opt_ids :: "tnode option \<Rightarrow> json list" where
  "opt_ids None = []"
| "opt_ids (Some t) = ids_pre t"

lemma mset_filtered_ids:
  "mset (concat (map ids_pre (map the (filter P rs)))) \<subseteq># mset (concat (map opt_ids rs))"
  if "\<And>r. P r \<Longrightarrow> r \<noteq> None"
  using that
proof (induction rs)
  case Nil
  then show ?case by simp
next
  case (Cons r rs)
  then have IH: "mset (concat (map ids_pre (map the (filter P rs)))) \<subseteq># mset (concat (map opt_ids rs))"
    by simp
  show ?case
  proof (cases "P r")
    case True
    with Cons.prems obtain t where "r = Some t" by (cases r) auto
    with True IH show ?thesis by simp
  next
    case False
    with IH show ?thesis by (simp add: subset_mset.add_increasing)
  qed
qed

lemma mset_autos_split:
  "a \<le> b \<Longrightarrow> b \<le> c \<Longrightarrow> mset (map auto_id [a..<c]) = mset (map auto_id [a..<b]) + mset (map auto_id [b..<c])"
  by (metis map_append mset_append upt_add_eq_append le_Suc_ex)

lemma walk_v1_ids:
  "walk_v1 node a = (r, a') \<Longrightarrow>
     a \<le> a' \<and> mset (opt_ids r) \<subseteq># mset (given_ids node) + mset (map auto_id [a..<a'])"
  "walks_v1 cs a = (rs, a') \<Longrightarrow>
     a \<le> a' \<and> mset (concat (map opt_ids rs)) \<subseteq># mset (concat (map given_ids cs)) + mset (map auto_id [a..<a'])"
proof (induction node a and cs a arbitrary: r a' and rs a' rule: walk_v1_walks_v1.induct)
  case (1 node auto)
  show ?case
  proof (cases "object_like node")
    case False
    with 1(2) show ?thesis by simp
  next
    case True
    define i where "i = (if absent (field node ''id'') then auto_id auto else the (field node ''id''))"
    define auto1 where "auto1 = (if absent (field node ''id'') then Suc auto else auto)"
    obtain rs auto2 where W: "walks_v1 (raw_children node) auto1 = (rs, auto2)" by force
    have pr: "(i, auto1) = (if absent (field node ''id'') then (auto_id auto, Suc auto) else (the (field node ''id''), auto))"
      by (simp add: i_def auto1_def)
    have nn: "\<not> \<not> object_like node" using True by simp
    from 1(1) [OF nn refl pr refl refl W]
    have IH: "auto1 \<le> auto2" "mset (concat (map opt_ids rs)) \<subseteq># mset (concat (map given_ids (raw_children node))) + mset (map auto_id [auto1..<auto2])"
      by auto
    from 1(2) True W pr [symmetric] obtain lbl where
      r: "r = Some (TNode i lbl (map the (filter survives_v1 rs)))" and a': "a' = auto2"
      by (auto simp: Let_def)
    have le: "auto \<le> auto1" by (simp add: auto1_def)
    have kids: "mset (concat (map ids_pre (map the (filter survives_v1 rs)))) \<subseteq># mset (concat (map opt_ids rs))"
    proof (rule mset_filtered_ids)
      fix r show "survives_v1 r \<Longrightarrow> r \<noteq> None" by (cases r) auto
    qed
    have head: "mset [i] + mset (concat (map given_ids (raw_children node))) + mset (map auto_id [auto1..<auto2])
          \<subseteq># mset (given_ids node) + mset (map auto_id [auto..<auto2])"
    proof (cases "absent (field node ''id'')")
      case True
      then have "[auto..<auto2] = auto # [auto1..<auto2]"
        using IH(1) by (simp add: auto1_def upt_conv_Cons)
      with True show ?thesis
        by (subst given_ids.simps) (simp add: i_def)
    next
      case False
      then show ?thesis
        by (subst given_ids.simps) (simp add: i_def auto1_def)
    qed
    have "mset (opt_ids r) = mset [i] + mset (concat (map ids_pre (map the (filter survives_v1 rs))))"
      by (simp add: r)
    also have "\<dots> \<subseteq># mset [i] + (mset (concat (map given_ids (raw_children node))) + mset (map auto_id [auto1..<auto2]))"
      using kids IH(2) by (meson subset_mset.add_left_mono subset_mset.order_trans)
    also have "\<dots> \<subseteq># mset (given_ids node) + mset (map auto_id [auto..<auto2])"
      using head by (simp add: add.assoc)
    finally show ?thesis using le IH(1) a' by simp
  qed
next
  case (2 auto)
  then show ?case by simp
next
  case (3 c cs auto)
  obtain r1 auto1 where W1: "walk_v1 c auto = (r1, auto1)" by force
  obtain rs2 auto2 where W2: "walks_v1 cs auto1 = (rs2, auto2)" by force
  from 3(1) [OF W1] have IH1: "auto \<le> auto1" "mset (opt_ids r1) \<subseteq># mset (given_ids c) + mset (map auto_id [auto..<auto1])"
    by auto
  from 3(2) [OF W1 [symmetric] refl W2] have IH2: "auto1 \<le> auto2"
    "mset (concat (map opt_ids rs2)) \<subseteq># mset (concat (map given_ids cs)) + mset (map auto_id [auto1..<auto2])"
    by auto
  from 3(3) W1 W2 have rs: "rs = r1 # rs2" and a': "a' = auto2" by auto
  have "mset (concat (map opt_ids rs)) = mset (opt_ids r1) + mset (concat (map opt_ids rs2))"
    by (simp add: rs)
  also have "\<dots> \<subseteq># (mset (given_ids c) + mset (map auto_id [auto..<auto1]))
       + (mset (concat (map given_ids cs)) + mset (map auto_id [auto1..<auto2]))"
    using IH1(2) IH2(2) by (rule subset_mset.add_mono)
  also have "\<dots> = mset (concat (map given_ids (c # cs))) + mset (map auto_id [auto..<auto2])"
    using mset_autos_split [OF IH1(1) IH2(1)] by (simp add: ac_simps)
  finally show ?case using IH1(1) IH2(1) a' by simp
qed

lemma walk_v2_ids:
  "walk_v2 node a = (r, a') \<Longrightarrow>
     a \<le> a' \<and> mset (opt_ids r) \<subseteq># mset (given_ids node) + mset (map auto_id [a..<a'])"
  "walks_v2 cs a = (rs, a') \<Longrightarrow>
     a \<le> a' \<and> mset (concat (map opt_ids rs)) \<subseteq># mset (concat (map given_ids cs)) + mset (map auto_id [a..<a'])"
proof (induction node a and cs a arbitrary: r a' and rs a' rule: walk_v2_walks_v2.induct)
  case (1 node auto)
  show ?case
  proof (cases "truthy node")
    case False
    with 1(2) show ?thesis by simp
  next
    case True
    define i where "i = (if absent (field node ''id'') then auto_id auto else the (field node ''id''))"
    define auto1 where "auto1 = (if absent (field node ''id'') then Suc auto else auto)"
    obtain rs auto2 where W: "walks_v2 (raw_children node) auto1 = (rs, auto2)" by force
    have pr: "(i, auto1) = (if absent (field node ''id'') then (auto_id auto, Suc auto) else (the (field node ''id''), auto))"
      by (simp add: i_def auto1_def)
    have nn: "\<not> \<not> truthy node" using True by simp
    from 1(1) [OF nn refl pr refl W]
    have IH: "auto1 \<le> auto2" "mset (concat (map opt_ids rs)) \<subseteq># mset (concat (map given_ids (raw_children node))) + mset (map auto_id [auto1..<auto2])"
      by auto
    from 1(2) True W pr [symmetric] obtain lbl where
      r: "r = Some (TNode i lbl (map the (filter (\<lambda>r. r \<noteq> None) rs)))" and a': "a' = auto2"
      by (auto simp: Let_def)
    have le: "auto \<le> auto1" by (simp add: auto1_def)
    have kids: "mset (concat (map ids_pre (map the (filter (\<lambda>r. r \<noteq> None) rs)))) \<subseteq># mset (concat (map opt_ids rs))"
      by (rule mset_filtered_ids)
    have head: "mset [i] + mset (concat (map given_ids (raw_children node))) + mset (map auto_id [auto1..<auto2])
          \<subseteq># mset (given_ids node) + mset (map auto_id [auto..<auto2])"
    proof (cases "absent (field node ''id'')")
      case True
      then have "[auto..<auto2] = auto # [auto1..<auto2]"
        using IH(1) by (simp add: auto1_def upt_conv_Cons)
      with True show ?thesis
        by (subst given_ids.simps) (simp add: i_def)
    next
      case False
      then show ?thesis
        by (subst given_ids.simps) (simp add: i_def auto1_def)
    qed
    have "mset (opt_ids r) = mset [i] + mset (concat (map ids_pre (map the (filter (\<lambda>r. r \<noteq> None) rs))))"
      by (simp add: r)
    also have "\<dots> \<subseteq># mset [i] + (mset (concat (map given_ids (raw_children node))) + mset (map auto_id [auto1..<auto2]))"
      using kids IH(2) by (meson subset_mset.add_left_mono subset_mset.order_trans)
    also have "\<dots> \<subseteq># mset (given_ids node) + mset (map auto_id [auto..<auto2])"
      using head by (simp add: add.assoc)
    finally show ?thesis using le IH(1) a' by simp
  qed
next
  case (2 auto)
  then show ?case by simp
next
  case (3 c cs auto)
  obtain r1 auto1 where W1: "walk_v2 c auto = (r1, auto1)" by force
  obtain rs2 auto2 where W2: "walks_v2 cs auto1 = (rs2, auto2)" by force
  from 3(1) [OF W1] have IH1: "auto \<le> auto1" "mset (opt_ids r1) \<subseteq># mset (given_ids c) + mset (map auto_id [auto..<auto1])"
    by auto
  from 3(2) [OF W1 [symmetric] refl W2] have IH2: "auto1 \<le> auto2"
    "mset (concat (map opt_ids rs2)) \<subseteq># mset (concat (map given_ids cs)) + mset (map auto_id [auto1..<auto2])"
    by auto
  from 3(3) W1 W2 have rs: "rs = r1 # rs2" and a': "a' = auto2" by auto
  have "mset (concat (map opt_ids rs)) = mset (opt_ids r1) + mset (concat (map opt_ids rs2))"
    by (simp add: rs)
  also have "\<dots> \<subseteq># (mset (given_ids c) + mset (map auto_id [auto..<auto1]))
       + (mset (concat (map given_ids cs)) + mset (map auto_id [auto1..<auto2]))"
    using IH1(2) IH2(2) by (rule subset_mset.add_mono)
  also have "\<dots> = mset (concat (map given_ids (c # cs))) + mset (map auto_id [auto..<auto2])"
    using mset_autos_split [OF IH1(1) IH2(1)] by (simp add: ac_simps)
  finally show ?case using IH1(1) IH2(1) a' by simp
qed


lemma distinct_sub_mset:
  assumes "mset xs \<subseteq># mset ys" and "distinct ys"
  shows "distinct xs"
proof -
  have "count (mset xs) a = (if a \<in> set xs then 1 else 0)" for a
  proof -
    have "count (mset xs) a \<le> count (mset ys) a"
      using assms(1) by (rule mset_subset_eq_count)
    also have "\<dots> \<le> 1"
      using assms(2) by (simp add: distinct_count_atmost_1)
    finally have le: "count (mset xs) a \<le> 1" .
    show ?thesis
    proof (cases "a \<in> set xs")
      case True
      then have "count (mset xs) a \<noteq> 0" by (simp add: count_mset_0_iff)
      with le have "count (mset xs) a = 1" by arith
      with True show ?thesis by simp
    next
      case False
      then show ?thesis by (simp add: count_mset_0_iff)
    qed
  qed
  then show ?thesis by (simp add: distinct_count_atmost_1)
qed

lemma distinct_given_autos:
  assumes "distinct (given_ids input)" and "\<forall>n. auto_id n \<notin> set (given_ids input)"
  shows "distinct (given_ids input @ map auto_id [a..<b])"
  using assms distinct_auto_ids [of a b] by auto

text \<open>
  C2 (as amended). \<open>normalizeTree\<close> has no check for duplicates. If the ids given in
  the input (\<open>given_ids\<close>: the non-null \<open>id\<close> of the root and of every entry
  reached through \<open>children\<close> arrays) are pairwise different and none of them is a
  string \<open>auto_<n>\<close>, then in both variants no two nodes of the output share an id.
\<close>

theorem normalize_unique_ids:
  assumes "distinct (given_ids input)" and "\<forall>n. auto_id n \<notin> set (given_ids input)"
  shows "(\<forall>t. normalizeTree_v1 input = Some t \<longrightarrow> distinct (ids_pre t))
       \<and> (\<forall>t. normalizeTree_v2 input = Some t \<longrightarrow> distinct (ids_pre t))"
proof (intro conjI allI impI)
  fix t assume "normalizeTree_v1 input = Some t"
  then obtain a' where "walk_v1 input 0 = (Some t, a')"
    by (cases "walk_v1 input 0") (auto simp: normalizeTree_v1_def split: if_splits)
  from walk_v1_ids(1) [OF this]
  have "mset (ids_pre t) \<subseteq># mset (given_ids input @ map auto_id [0..<a'])" by simp
  then show "distinct (ids_pre t)"
    using distinct_given_autos [OF assms] by (rule distinct_sub_mset)
next
  fix t assume "normalizeTree_v2 input = Some t"
  then obtain a' where "walk_v2 input 0 = (Some t, a')"
    by (cases "walk_v2 input 0") (auto simp: normalizeTree_v2_def split: if_splits)
  from walk_v2_ids(1) [OF this]
  have "mset (ids_pre t) \<subseteq># mset (given_ids input @ map auto_id [0..<a'])" by simp
  then show "distinct (ids_pre t)"
    using distinct_given_autos [OF assms] by (rule distinct_sub_mset)
qed

text \<open>
  Two inputs on which ids repeat: \<open>{id:'r', children:[{id:'a'},{id:'a'}]}\<close> repeats a
  given id, and in \<open>{id:'auto_0', children:[{label:'x'}]}\<close> the id synthesized for the
  child is the id given for the root.
\<close>

definition ex_dup :: json where
  "ex_dup = JObj [(''id'', JStr ''r''), (''children'', JArr [JObj [(''id'', JStr ''a'')], JObj [(''id'', JStr ''a'')]])]"

definition ex_auto :: json where
  "ex_auto = JObj [(''id'', JStr ''auto_0''), (''children'', JArr [JObj [(''label'', JStr ''x'')]])]"


definition ex_mixed :: json where
  "ex_mixed = JObj [(''id'', JStr ''r''), (''label'', JStr ''Root''),
     (''children'', JArr [JObj [(''id'', JStr ''a'')], JObj [(''label'', JStr ''x'')], JNum 7, JObj [(''id'', JNum 0)], JNull])]"

lemma given_ids_ex_mixed: "given_ids ex_mixed = [JStr ''r'', JStr ''a'', JNum 0]"
  by (simp add: ex_mixed_def given_ids.simps raw_children_def)

theorem normalize_unique_ids_witness:
  "distinct (given_ids ex_mixed) \<and> (\<forall>n. auto_id n \<notin> set (given_ids ex_mixed))
   \<and> normalizeTree_v1 ex_mixed
       = Some (TNode (JStr ''r'') (JStr ''Root'')
                [TNode (JStr ''a'') (JStr ''a'') [], TNode (JStr ''auto_0'') (JStr ''x'') []])
   \<and> distinct (ids_pre (the (normalizeTree_v1 ex_mixed)))
   \<and> distinct (ids_pre (the (normalizeTree_v2 ex_mixed)))"
proof -
  have h1: "distinct (given_ids ex_mixed)" by (simp add: given_ids_ex_mixed)
  have h2: "\<forall>n. auto_id n \<notin> set (given_ids ex_mixed)"
    by (simp add: given_ids_ex_mixed auto_id_def)
  have v1: "normalizeTree_v1 ex_mixed
       = Some (TNode (JStr ''r'') (JStr ''Root'')
                [TNode (JStr ''a'') (JStr ''a'') [], TNode (JStr ''auto_0'') (JStr ''x'') []])"
    by (simp add: normalizeTree_v1_def ex_mixed_def raw_children_def auto_id_def String_nat.simps digit_def)
  have v2: "\<exists>t. normalizeTree_v2 ex_mixed = Some t"
    by (simp add: normalizeTree_v2_def ex_mixed_def raw_children_def)
  from normalize_unique_ids [OF h1 h2] v1 v2 h1 h2 show ?thesis by auto
qed

text \<open>
  C2 as stated fails: on both inputs above, in both variants, the output has two nodes
  with the same id.
\<close>

theorem normalize_ids_not_unique:
  "\<not> distinct (ids_pre (the (normalizeTree_v1 ex_dup)))
   \<and> \<not> distinct (ids_pre (the (normalizeTree_v2 ex_dup)))
   \<and> \<not> distinct (ids_pre (the (normalizeTree_v1 ex_auto)))
   \<and> \<not> distinct (ids_pre (the (normalizeTree_v2 ex_auto)))"
  by (simp add: normalizeTree_v1_def normalizeTree_v2_def ex_dup_def ex_auto_def raw_children_def
        auto_id_def String_nat.simps digit_def)

subsection \<open>Which children are dropped\<close>

text \<open>
  The first variant keeps a result \<open>c\<close> of the walk when \<open>c && c.id\<close>; the
  second when \<open>Boolean(c)\<close>. In terms of the input entry: the first variant keeps the
  object-like entries whose id is missing or truthy, the second keeps the truthy entries.
\<close>

definition kept_v1 :: "json \<Rightarrow> bool" where
  "kept_v1 c = (object_like c \<and> (absent (field c ''id'') \<or> truthy (the (field c ''id''))))"

lemma truthy_auto_id: "truthy (auto_id a)"
  by (simp add: auto_id_def)

lemma walk_v1_Some:
  "object_like c \<Longrightarrow> \<exists>l cs a'. walk_v1 c a =
     (Some (TNode (if absent (field c ''id'') then auto_id a else the (field c ''id'')) l cs), a')"
  by (simp add: Let_def split: prod.splits)

lemma walk_v2_Some:
  "truthy c \<Longrightarrow> \<exists>l cs a'. walk_v2 c a =
     (Some (TNode (if absent (field c ''id'') then auto_id a else the (field c ''id'')) l cs), a')"
  by (simp add: Let_def split: prod.splits)

lemma walk_v1_survives: "survives_v1 (fst (walk_v1 c a)) = kept_v1 c"
proof (cases "object_like c")
  case True
  from walk_v1_Some [OF this, of a] show ?thesis
    using True by (auto simp: kept_v1_def truthy_auto_id simp del: walk_v1.simps split: if_splits)
next
  case False
  then show ?thesis by (simp add: kept_v1_def)
qed

lemma walk_v2_survives: "(fst (walk_v2 c a) \<noteq> None) = truthy c"
proof (cases "truthy c")
  case True
  from walk_v2_Some [OF this, of a] show ?thesis
    using True by (auto simp del: walk_v2.simps)
next
  case False
  then show ?thesis by simp
qed

subsection \<open>The children of a normalized node\<close>

text \<open>
  \<open>normalized_from_v1 c n\<close>: the node \<open>n\<close> is what the walk returns for the entry
  \<open>c\<close> at some value of the counter, and its id is the id the entry gives or, where the
  entry gives none, \<open>auto_<n>\<close> for that value of the counter.
\<close>

definition normalized_from_v1 :: "json \<Rightarrow> tnode \<Rightarrow> bool" where
  "normalized_from_v1 c n =
     (\<exists>b. fst (walk_v1 c b) = Some n
          \<and> nid n = (if absent (field c ''id'') then auto_id b else the (field c ''id'')))"

definition normalized_from_v2 :: "json \<Rightarrow> tnode \<Rightarrow> bool" where
  "normalized_from_v2 c n =
     (\<exists>b. fst (walk_v2 c b) = Some n
          \<and> nid n = (if absent (field c ''id'') then auto_id b else the (field c ''id'')))"

lemma walks_v1_children:
  "list_all2 normalized_from_v1 (filter kept_v1 cs) (map the (filter survives_v1 (fst (walks_v1 cs a))))"
proof (induction cs arbitrary: a)
  case Nil
  then show ?case by simp
next
  case (Cons c cs)
  obtain r a1 where W: "walk_v1 c a = (r, a1)" by force
  obtain rs a2 where W2: "walks_v1 cs a1 = (rs, a2)" by force
  from W walk_v1_survives [of c a] have s: "survives_v1 r = kept_v1 c" by simp
  from Cons [of a1] W2
  have IH: "list_all2 normalized_from_v1 (filter kept_v1 cs) (map the (filter survives_v1 rs))"
    by simp
  show ?case
  proof (cases "kept_v1 c")
    case True
    then have "object_like c" by (simp add: kept_v1_def)
    from walk_v1_Some [OF this, of a] W obtain n where
      n: "r = Some n" "nid n = (if absent (field c ''id'') then auto_id a else the (field c ''id''))"
      by (auto simp del: walk_v1.simps)
    with W have "normalized_from_v1 c n"
      by (auto simp: normalized_from_v1_def simp del: walk_v1.simps intro!: exI [of _ a])
    with True s n IH W W2 show ?thesis by (simp del: walk_v1.simps)
  next
    case False
    with s IH W W2 show ?thesis by (simp del: walk_v1.simps)
  qed
qed

lemma walks_v2_children:
  "list_all2 normalized_from_v2 (filter truthy cs) (map the (filter (\<lambda>r. r \<noteq> None) (fst (walks_v2 cs a))))"
proof (induction cs arbitrary: a)
  case Nil
  then show ?case by simp
next
  case (Cons c cs)
  obtain r a1 where W: "walk_v2 c a = (r, a1)" by force
  obtain rs a2 where W2: "walks_v2 cs a1 = (rs, a2)" by force
  from W walk_v2_survives [of c a] have s: "(r \<noteq> None) = truthy c" by simp
  from Cons [of a1] W2
  have IH: "list_all2 normalized_from_v2 (filter truthy cs) (map the (filter (\<lambda>r. r \<noteq> None) rs))"
    by simp
  show ?case
  proof (cases "truthy c")
    case True
    from walk_v2_Some [OF this, of a] W obtain n where
      n: "r = Some n" "nid n = (if absent (field c ''id'') then auto_id a else the (field c ''id''))"
      by (auto simp del: walk_v2.simps)
    with W have "normalized_from_v2 c n"
      by (auto simp: normalized_from_v2_def simp del: walk_v2.simps intro!: exI [of _ a])
    with True s n IH W W2 show ?thesis by (simp del: walk_v2.simps)
  next
    case False
    with s IH W W2 show ?thesis by (simp del: walk_v2.simps)
  qed
qed

lemma walk_v1_children:
  assumes "object_like p"
  shows "\<exists>t a'. walk_v1 p a = (Some t, a')
           \<and> list_all2 normalized_from_v1 (filter kept_v1 (raw_children p)) (children t)"
proof -
  define a1 where "a1 = (if absent (field p ''id'') then Suc a else a)"
  obtain rs a2 where W: "walks_v1 (raw_children p) a1 = (rs, a2)" by force
  with assms have "\<exists>i l. walk_v1 p a = (Some (TNode i l (map the (filter survives_v1 rs))), a2)"
    by (cases "absent (field p ''id'')") (simp_all add: Let_def a1_def)
  moreover from walks_v1_children [of "raw_children p" a1] W
  have "list_all2 normalized_from_v1 (filter kept_v1 (raw_children p)) (map the (filter survives_v1 rs))"
    by simp
  ultimately show ?thesis by (metis tnode.sel(3))
qed

lemma walk_v2_children:
  assumes "truthy p"
  shows "\<exists>t a'. walk_v2 p a = (Some t, a')
           \<and> list_all2 normalized_from_v2 (filter truthy (raw_children p)) (children t)"
proof -
  define a1 where "a1 = (if absent (field p ''id'') then Suc a else a)"
  obtain rs a2 where W: "walks_v2 (raw_children p) a1 = (rs, a2)" by force
  with assms have "\<exists>i l. walk_v2 p a = (Some (TNode i l (map the (filter (\<lambda>r. r \<noteq> None) rs))), a2)"
    by (cases "absent (field p ''id'')") (simp_all add: Let_def a1_def)
  moreover from walks_v2_children [of "raw_children p" a1] W
  have "list_all2 normalized_from_v2 (filter truthy (raw_children p)) (map the (filter (\<lambda>r. r \<noteq> None) rs))"
    by simp
  ultimately show ?thesis by (metis tnode.sel(3))
qed

lemma object_like_truthy: "object_like c \<Longrightarrow> truthy c"
  by (cases c) auto

lemma list_all2_member:
  assumes "list_all2 R xs ys" and "v \<in> set xs"
  shows "\<exists>w\<in>set ys. R v w"
  using assms by (induction rule: list_all2_induct) auto

lemma missing_id_child_v1:
  assumes "object_like p" and "c \<in> set (raw_children p)" and "object_like c" and "absent (field c ''id'')"
  shows "\<exists>t a' n b. walk_v1 p a = (Some t, a') \<and> n \<in> set (children t)
           \<and> fst (walk_v1 c b) = Some n \<and> nid n = auto_id b"
proof -
  from walk_v1_children [OF assms(1), of a] obtain t a' where
    w: "walk_v1 p a = (Some t, a')"
    and l: "list_all2 normalized_from_v1 (filter kept_v1 (raw_children p)) (children t)"
    by blast
  from assms have "c \<in> set (filter kept_v1 (raw_children p))" by (simp add: kept_v1_def)
  from list_all2_member [OF l this] assms(4) obtain n b where
    "n \<in> set (children t)" "fst (walk_v1 c b) = Some n" "nid n = auto_id b"
    by (auto simp: normalized_from_v1_def simp del: walk_v1.simps)
  with w show ?thesis by blast
qed

lemma missing_id_child_v2:
  assumes "object_like p" and "c \<in> set (raw_children p)" and "object_like c" and "absent (field c ''id'')"
  shows "\<exists>t a' n b. walk_v2 p a = (Some t, a') \<and> n \<in> set (children t)
           \<and> fst (walk_v2 c b) = Some n \<and> nid n = auto_id b"
proof -
  from walk_v2_children [OF object_like_truthy [OF assms(1)], of a] obtain t a' where
    w: "walk_v2 p a = (Some t, a')"
    and l: "list_all2 normalized_from_v2 (filter truthy (raw_children p)) (children t)"
    by blast
  from assms have "c \<in> set (filter truthy (raw_children p))" by (simp add: object_like_truthy)
  from list_all2_member [OF l this] assms(4) obtain n b where
    "n \<in> set (children t)" "fst (walk_v2 c b) = Some n" "nid n = auto_id b"
    by (auto simp: normalized_from_v2_def simp del: walk_v2.simps)
  with w show ?thesis by blast
qed

text \<open>
  C8 (as amended). An object-like child lacking an id is never dropped, whether or not its
  synthesized id collides with another id: in both variants the node that the walk makes
  of it, with id \<open>auto_<n>\<close> for a value of the counter, is among the children of
  the node that the walk returns for its parent. Where no entry of \<open>children\<close> is
  an object with an id that is falsy (first variant), and where none is a truthy value
  that is no object (second variant), only the entries that are not object-like are
  filtered out: the children of the parent's node are, in order, the nodes made of the
  object-like entries.
\<close>

theorem children_kept:
  "(object_like p \<and> c \<in> set (raw_children p) \<and> object_like c \<and> absent (field c ''id'') \<longrightarrow>
      (\<exists>t a' n b. walk_v1 p a = (Some t, a') \<and> n \<in> set (children t)
           \<and> fst (walk_v1 c b) = Some n \<and> nid n = auto_id b)
    \<and> (\<exists>t a' n b. walk_v2 p a = (Some t, a') \<and> n \<in> set (children t)
           \<and> fst (walk_v2 c b) = Some n \<and> nid n = auto_id b))
   \<and> (object_like p
        \<and> (\<forall>c\<in>set (raw_children p).
              object_like c \<longrightarrow> absent (field c ''id'') \<or> truthy (the (field c ''id''))) \<longrightarrow>
      (\<exists>t a'. walk_v1 p a = (Some t, a')
         \<and> list_all2 normalized_from_v1 (filter object_like (raw_children p)) (children t)))
   \<and> (object_like p \<and> (\<forall>c\<in>set (raw_children p). object_like c \<or> \<not> truthy c) \<longrightarrow>
      (\<exists>t a'. walk_v2 p a = (Some t, a')
         \<and> list_all2 normalized_from_v2 (filter object_like (raw_children p)) (children t)))"
proof (intro conjI impI)
  assume A: "object_like p \<and> c \<in> set (raw_children p) \<and> object_like c \<and> absent (field c ''id'')"
  then show "\<exists>t a' n b. walk_v1 p a = (Some t, a') \<and> n \<in> set (children t)
           \<and> fst (walk_v1 c b) = Some n \<and> nid n = auto_id b"
    by (intro missing_id_child_v1) simp_all
  from A show "\<exists>t a' n b. walk_v2 p a = (Some t, a') \<and> n \<in> set (children t)
           \<and> fst (walk_v2 c b) = Some n \<and> nid n = auto_id b"
    by (intro missing_id_child_v2) simp_all
next
  assume A: "object_like p
        \<and> (\<forall>c\<in>set (raw_children p).
              object_like c \<longrightarrow> absent (field c ''id'') \<or> truthy (the (field c ''id'')))"
  then have "filter kept_v1 (raw_children p) = filter object_like (raw_children p)"
    by (intro filter_cong refl) (auto simp: kept_v1_def)
  with walk_v1_children [of p a] A
  show "\<exists>t a'. walk_v1 p a = (Some t, a')
         \<and> list_all2 normalized_from_v1 (filter object_like (raw_children p)) (children t)"
    by auto
next
  assume A: "object_like p \<and> (\<forall>c\<in>set (raw_children p). object_like c \<or> \<not> truthy c)"
  then have "filter truthy (raw_children p) = filter object_like (raw_children p)"
    by (intro filter_cong refl) (auto simp: object_like_truthy)
  with walk_v2_children [of p a] A
  show "\<exists>t a'. walk_v2 p a = (Some t, a')
         \<and> list_all2 normalized_from_v2 (filter object_like (raw_children p)) (children t)"
    by (auto simp: object_like_truthy)
qed

text \<open>
  The parent \<open>{id:'r', children:[{label:'x'}, null, {id:'a'}, {label:'y'}]}\<close>, and
  \<open>{id:'r', children:[{id:0}]}\<close>.
\<close>

definition ex_parent :: json where
  "ex_parent = JObj [(''id'', JStr ''r''),
     (''children'', JArr [JObj [(''label'', JStr ''x'')], JNull, JObj [(''id'', JStr ''a'')],
                          JObj [(''label'', JStr ''y'')]])]"

definition ex_zero :: json where
  "ex_zero = JObj [(''id'', JStr ''r''), (''children'', JArr [JObj [(''id'', JNum 0)]])]"

theorem children_kept_witness:
  "object_like ex_parent
   \<and> raw_children ex_parent
       = [JObj [(''label'', JStr ''x'')], JNull, JObj [(''id'', JStr ''a'')], JObj [(''label'', JStr ''y'')]]
   \<and> filter object_like (raw_children ex_parent)
       = [JObj [(''label'', JStr ''x'')], JObj [(''id'', JStr ''a'')], JObj [(''label'', JStr ''y'')]]
   \<and> walk_v1 ex_parent 0
       = (Some (TNode (JStr ''r'') (JStr ''r'')
                 [TNode (JStr ''auto_0'') (JStr ''x'') [], TNode (JStr ''a'') (JStr ''a'') [],
                  TNode (JStr ''auto_1'') (JStr ''y'') []]), 2)
   \<and> walk_v2 ex_parent 0
       = (Some (TNode (JStr ''r'') (JStr ''r'')
                 [TNode (JStr ''auto_0'') (JStr ''x'') [], TNode (JStr ''a'') (JStr ''a'') [],
                  TNode (JStr ''auto_1'') (JStr ''y'') []]), 2)
   \<and> (\<exists>t a' n b. walk_v1 ex_parent 0 = (Some t, a') \<and> n \<in> set (children t)
         \<and> fst (walk_v1 (JObj [(''label'', JStr ''y'')]) b) = Some n \<and> nid n = auto_id b)
   \<and> (\<exists>t a' n b. walk_v2 ex_parent 0 = (Some t, a') \<and> n \<in> set (children t)
         \<and> fst (walk_v2 (JObj [(''label'', JStr ''y'')]) b) = Some n \<and> nid n = auto_id b)
   \<and> (\<exists>t a'. walk_v1 ex_parent 0 = (Some t, a')
         \<and> list_all2 normalized_from_v1 (filter object_like (raw_children ex_parent)) (children t))
   \<and> (\<exists>t a'. walk_v2 ex_parent 0 = (Some t, a')
         \<and> list_all2 normalized_from_v2 (filter object_like (raw_children ex_parent)) (children t))"
proof -
  have o: "object_like ex_parent" by (simp add: ex_parent_def)
  have r: "raw_children ex_parent
       = [JObj [(''label'', JStr ''x'')], JNull, JObj [(''id'', JStr ''a'')], JObj [(''label'', JStr ''y'')]]"
    by (simp add: ex_parent_def raw_children_def)
  have k: "filter object_like (raw_children ex_parent)
       = [JObj [(''label'', JStr ''x'')], JObj [(''id'', JStr ''a'')], JObj [(''label'', JStr ''y'')]]"
    by (simp add: r)
  have h1: "object_like ex_parent
        \<and> (\<forall>c\<in>set (raw_children ex_parent).
              object_like c \<longrightarrow> absent (field c ''id'') \<or> truthy (the (field c ''id'')))"
    by (simp add: r o)
  have h2: "object_like ex_parent \<and> (\<forall>c\<in>set (raw_children ex_parent). object_like c \<or> \<not> truthy c)"
    by (simp add: r o)
  have v1: "walk_v1 ex_parent 0
       = (Some (TNode (JStr ''r'') (JStr ''r'')
                 [TNode (JStr ''auto_0'') (JStr ''x'') [], TNode (JStr ''a'') (JStr ''a'') [],
                  TNode (JStr ''auto_1'') (JStr ''y'') []]), 2)"
    by (simp add: ex_parent_def raw_children_def auto_id_def String_nat.simps digit_def)
  have v2: "walk_v2 ex_parent 0
       = (Some (TNode (JStr ''r'') (JStr ''r'')
                 [TNode (JStr ''auto_0'') (JStr ''x'') [], TNode (JStr ''a'') (JStr ''a'') [],
                  TNode (JStr ''auto_1'') (JStr ''y'') []]), 2)"
    by (simp add: ex_parent_def raw_children_def auto_id_def String_nat.simps digit_def)
  have m: "object_like ex_parent \<and> JObj [(''label'', JStr ''y'')] \<in> set (raw_children ex_parent)
       \<and> object_like (JObj [(''label'', JStr ''y'')]) \<and> absent (field (JObj [(''label'', JStr ''y'')]) ''id'')"
    by (simp add: r o)
  note c = children_kept [of ex_parent "JObj [(''label'', JStr ''y'')]" 0]
  from c [THEN conjunct1, THEN mp, OF m]
       c [THEN conjunct2, THEN conjunct1, THEN mp, OF h1]
       c [THEN conjunct2, THEN conjunct2, THEN mp, OF h2] o r k v1 v2
  show ?thesis by (intro conjI) blast+
qed

text \<open>
  C8 as stated fails. In \<open>{id:'auto_0', children:[{label:'x'}]}\<close> the id synthesized
  for the child collides with the root's id, and the child is kept, in both variants. In
  \<open>{id:'r', children:[{id:0}]}\<close> the child is object-like, and the first variant
  filters it out, its id being falsy.
\<close>

theorem colliding_child_kept:
  "normalizeTree_v1 ex_auto
     = Some (TNode (JStr ''auto_0'') (JStr ''auto_0'') [TNode (JStr ''auto_0'') (JStr ''x'') []])
   \<and> normalizeTree_v2 ex_auto
     = Some (TNode (JStr ''auto_0'') (JStr ''auto_0'') [TNode (JStr ''auto_0'') (JStr ''x'') []])
   \<and> normalizeTree_v1 ex_zero = Some (TNode (JStr ''r'') (JStr ''r'') [])"
  by (simp add: normalizeTree_v1_def normalizeTree_v2_def ex_auto_def ex_zero_def raw_children_def
        auto_id_def String_nat.simps digit_def String_int_def)


section \<open>Properties of text wrapping\<close>

text \<open>
  The width \<open>measureText\<close> returns for a text when no font is passed, whatever the
  state of the canvas: the width under \<open>FONT\<close>, or 100 without a document.
\<close>

definition text_width :: "document \<Rightarrow> string \<Rightarrow> real" where
  "text_width doc text = (case doc of None \<Rightarrow> 100 | Some width \<Rightarrow> width FONT text)"

text \<open>
  Greedy word-wrap in the words of the specification: the next word is appended to the
  current line if the width of the combined line stays within \<open>maxWidth\<close>, otherwise
  the current line is closed and a new line starts with that word. The first word starts
  the first line, so a word is never split, however wide.
\<close>

fun greedy :: "(string \<Rightarrow> real) \<Rightarrow> real \<Rightarrow> string \<Rightarrow> string list \<Rightarrow> string list" where
  "greedy width maxWidth line [] = [line]"
| "greedy width maxWidth line (word # words) =
     (if width (line @ '' '' @ word) \<le> maxWidth
      then greedy width maxWidth (line @ '' '' @ word) words
      else line # greedy width maxWidth word words)"

definition greedy_wrap :: "(string \<Rightarrow> real) \<Rightarrow> real \<Rightarrow> string list \<Rightarrow> string list" where
  "greedy_wrap width maxWidth words =
     (case words of [] \<Rightarrow> [] | word # rest \<Rightarrow> greedy width maxWidth word rest)"

lemma measureText_default: "fst (measureText doc text None canvas) = text_width doc text"
  by (simp add: measureText_def text_width_def Let_def split: option.splits)

lemma split_space_empty: "split_space [] = [[]]"
  by (simp add: split_space.simps)

lemma split_space_not_Nil: "split_space s \<noteq> []"
  by (subst split_space.simps) (simp split: list.splits)

lemma wrap_step_first:
  "wrap_step doc maxWidth word (ls, [], canvas) = (ls, word, snd (measureText doc word None canvas))"
  by (simp add: wrap_step_def Let_def split: prod.splits)

lemma wrap_step_next:
  "line \<noteq> [] \<Longrightarrow> wrap_step doc maxWidth word (ls, line, canvas) =
     (if text_width doc (line @ '' '' @ word) \<le> maxWidth
      then (ls, line @ '' '' @ word, snd (measureText doc (line @ '' '' @ word) None canvas))
      else (ls @ [line], word, snd (measureText doc (line @ '' '' @ word) None canvas)))"
  using measureText_default [of doc "line @ '' '' @ word" canvas]
  by (auto simp: wrap_step_def Let_def split: prod.splits)

lemma fold_wrap_step_greedy:
  assumes "line \<noteq> []" and "\<forall>w\<in>set words. w \<noteq> []"
  shows "\<exists>ls' line' canvas'. fold (wrap_step doc maxWidth) words (ls, line, canvas) = (ls', line', canvas')
           \<and> line' \<noteq> [] \<and> ls' @ [line'] = ls @ greedy (text_width doc) maxWidth line words"
  using assms
proof (induction words arbitrary: ls line canvas)
  case Nil
  then show ?case by simp
next
  case (Cons word words)
  show ?case
  proof (cases "text_width doc (line @ '' '' @ word) \<le> maxWidth")
    case True
    with Cons.prems Cons.IH [of "line @ '' '' @ word" ls] show ?thesis
      by (simp add: wrap_step_next)
  next
    case False
    with Cons.prems Cons.IH [of word "ls @ [line]"] show ?thesis
      by (simp add: wrap_step_next)
  qed
qed

lemma wrapText_greedy:
  assumes "\<forall>w\<in>set (split_space (String_js text)). w \<noteq> []"
  shows "fst (wrapText doc text maxWidth canvas)
           = greedy_wrap (text_width doc) maxWidth (split_space (String_js text))"
proof -
  obtain word rest where ws: "split_space (String_js text) = word # rest"
    using split_space_not_Nil [of "String_js text"] by (cases "split_space (String_js text)") auto
  with assms have ne: "word \<noteq> []" and rest: "\<forall>w\<in>set rest. w \<noteq> []" by auto
  from fold_wrap_step_greedy [OF ne rest, of doc maxWidth "[]" "snd (measureText doc word None canvas)"]
  obtain ls' line' canvas' where
    f: "fold (wrap_step doc maxWidth) rest ([], word, snd (measureText doc word None canvas)) = (ls', line', canvas')"
    and l: "line' \<noteq> []" and g: "ls' @ [line'] = greedy (text_width doc) maxWidth word rest"
    by auto
  then show ?thesis
    by (simp add: wrapText_def ws wrap_step_first greedy_wrap_def)
qed

text \<open>
  C6 (as amended). \<open>wrapText\<close> is greedy word-wrap on every text whose words (the
  pieces between single spaces) are all non-empty, that is, a text that is not empty and has
  no leading, trailing or doubled space: for every \<open>maxWidth\<close>, every document and
  every state of the canvas, its lines are those of \<open>greedy_wrap\<close> on the words,
  under the width that \<open>measureText\<close> measures. In particular, when
  \<open>maxWidth\<close> is at least the width of \<open>a b\<close> and smaller than the width of
  \<open>a b c\<close>, the label \<open>a b c\<close> wraps to exactly the two lines \<open>a b\<close>
  and \<open>c\<close>.
\<close>

theorem wrapText_is_greedy:
  "((\<forall>w\<in>set (split_space (String_js text)). w \<noteq> []) \<longrightarrow>
       fst (wrapText doc text maxWidth canvas)
         = greedy_wrap (text_width doc) maxWidth (split_space (String_js text)))
   \<and> (text_width doc ''a b'' \<le> maxWidth \<and> maxWidth < text_width doc ''a b c'' \<longrightarrow>
       fst (wrapText doc (JStr ''a b c'') maxWidth canvas) = [''a b'', ''c''])"
proof (intro conjI impI)
  assume "\<forall>w\<in>set (split_space (String_js text)). w \<noteq> []"
  then show "fst (wrapText doc text maxWidth canvas)
         = greedy_wrap (text_width doc) maxWidth (split_space (String_js text))"
    by (rule wrapText_greedy)
next
  assume A: "text_width doc ''a b'' \<le> maxWidth \<and> maxWidth < text_width doc ''a b c''"
  have ws: "split_space ''a b c'' = [''a'', ''b'', ''c'']"
    by (simp add: split_space.simps)
  have "fst (wrapText doc (JStr ''a b c'') maxWidth canvas)
          = greedy_wrap (text_width doc) maxWidth (split_space (String_js (JStr ''a b c'')))"
    by (rule wrapText_greedy) (simp add: ws)
  with A show "fst (wrapText doc (JStr ''a b c'') maxWidth canvas) = [''a b'', ''c'']"
    by (simp add: ws greedy_wrap_def)
qed

text \<open>
  C5. The claim is that \<open>wrap\<close> of the empty string is one empty line. In the code it
  is no line at all, for every \<open>maxWidth\<close>: the last line is pushed only
  \<open>if (line)\<close>. The layout then takes \<open>Math.max\<close> over no widths, and the box of a
  node with an empty label has the width \<open>-Infinity\<close>.
\<close>

theorem wrapText_empty_string:
  "fst (wrapText doc (JStr []) maxWidth canvas) = []
   \<and> boxW (fst (node_v2 doc expandableIds (HNode (TNode i (JStr []) cs) d px py ks) canvas)) = NegInf"
  by (simp add: node_v2_def wrapText_def split_space_empty wrap_step_first Math_max_all_def Let_def
        split: prod.splits)

text \<open>A document whose canvas measures 8 units for every character, in every font.\<close>

definition fixed_pitch :: document where
  "fixed_pitch = Some (\<lambda>font text. 8 * real (length text))"

theorem wrapText_is_greedy_witness:
  "split_space ''the quick fox'' = [''the'', ''quick'', ''fox'']
   \<and> fst (wrapText fixed_pitch (JStr ''the quick fox'') 80 None) = [''the quick'', ''fox'']
   \<and> text_width fixed_pitch ''a b'' \<le> 30 \<and> 30 < text_width fixed_pitch ''a b c''
   \<and> fst (wrapText fixed_pitch (JStr ''a b c'') 30 None) = [''a b'', ''c'']"
proof -
  have ws: "split_space ''the quick fox'' = [''the'', ''quick'', ''fox'']"
    by (simp add: split_space.simps)
  have w: "text_width fixed_pitch ''a b'' \<le> 30 \<and> 30 < text_width fixed_pitch ''a b c''"
    by (simp add: text_width_def fixed_pitch_def)
  from wrapText_is_greedy [of "JStr ''the quick fox''" fixed_pitch 80 None]
       wrapText_is_greedy [of "JStr ''a b c''" fixed_pitch 30 None] ws w
  show ?thesis
    by (simp add: greedy_wrap_def text_width_def fixed_pitch_def)
qed

text \<open>
  C6 as stated fails on a text with an empty word, under a document that measures 8 units
  a character. \<open>wrapText\<close> takes an empty current line for no line: an empty word
  that would start a line is left out, where the greedy wrap starts the line with it. So
  a leading space is lost (\<open>" a"\<close>), a trailing space that does not fit gives no
  last line (\<open>"a "\<close> at width 8), and the second of two spaces at a break is lost
  (\<open>"aa  b"\<close> at width 16).
\<close>

theorem wrapText_empty_words:
  "fst (wrapText fixed_pitch (JStr '' a'') 80 None) = [''a'']
   \<and> greedy_wrap (text_width fixed_pitch) 80 (split_space '' a'') = ['' a'']
   \<and> fst (wrapText fixed_pitch (JStr ''a '') 8 None) = [''a'']
   \<and> greedy_wrap (text_width fixed_pitch) 8 (split_space ''a '') = [''a'', '''']
   \<and> fst (wrapText fixed_pitch (JStr ''aa  b'') 16 None) = [''aa'', ''b'']
   \<and> greedy_wrap (text_width fixed_pitch) 16 (split_space ''aa  b'') = [''aa'', '' b'']"
  by (simp add: wrapText_def wrap_step_def measureText_def split_space.simps greedy_wrap_def
        text_width_def fixed_pitch_def FONT_def Let_def)

section \<open>Properties of visibility\<close>

text \<open>
  A node is reachable from the root by following only children of expanded nodes: the
  root is, and so is every child of a reachable node whose id is in the expanded set. All
  ancestors of a node reached this way are expanded; the node itself need not be.
\<close>

inductive reachable :: "json set \<Rightarrow> tnode \<Rightarrow> tnode \<Rightarrow> bool" for expanded rt where
  reach_root: "reachable expanded rt rt"
| reach_child: "reachable expanded rt p \<Longrightarrow> nid p \<in> expanded \<Longrightarrow> c \<in> set (children p)
     \<Longrightarrow> reachable expanded rt c"

text \<open>
  What the first variant's normalization guarantees of its output and its visibility
  filter assumes: every child has a truthy id.
\<close>

fun canonical :: "tnode \<Rightarrow> bool" where
  "canonical (TNode i l cs) = (\<forall>c\<in>set cs. truthy (nid c) \<and> canonical c)"

lemma reachable_below:
  assumes "reachable e c n" and "c \<in> set (children t)" and "nid t \<in> e"
  shows "reachable e t n"
  using assms
proof (induction rule: reachable.induct)
  case reach_root
  then show ?case by (blast intro: reachable.intros)
next
  case (reach_child p c')
  then show ?case by (blast intro: reachable.intros)
qed

lemma reachable_unfold:
  "reachable e t n \<longleftrightarrow> n = t \<or> (nid t \<in> e \<and> (\<exists>c\<in>set (children t). reachable e c n))"
proof
  assume "reachable e t n"
  then show "n = t \<or> (nid t \<in> e \<and> (\<exists>c\<in>set (children t). reachable e c n))"
  proof (induction rule: reachable.induct)
    case reach_root
    then show ?case by simp
  next
    case (reach_child p c)
    then show ?case by (blast intro: reachable.intros)
  qed
next
  assume "n = t \<or> (nid t \<in> e \<and> (\<exists>c\<in>set (children t). reachable e c n))"
  then show "reachable e t n"
    by (blast intro: reachable.intros reachable_below)
qed

lemma ids_buildVisibleTree_v2:
  "set (ids_pre (buildVisibleTree_v2 t e)) = nid ` {n. reachable e t n}"
proof (induction t)
  case (TNode i l cs)
  have R: "{n. reachable e (TNode i l cs) n}
     = insert (TNode i l cs) (if i \<in> e then (\<Union>c\<in>set cs. {n. reachable e c n}) else {})"
    by (subst reachable_unfold) auto
  show ?case
  proof (cases "i \<in> e")
    case True
    have "set (ids_pre (buildVisibleTree_v2 (TNode i l cs) e))
        = insert i (\<Union>c\<in>set cs. set (ids_pre (buildVisibleTree_v2 c e)))"
      using True by simp
    also have "\<dots> = insert i (\<Union>c\<in>set cs. nid ` {n. reachable e c n})"
      using TNode by simp
    also have "\<dots> = nid ` {n. reachable e (TNode i l cs) n}"
      using True by (simp only: R) auto
    finally show ?thesis .
  next
    case False
    then show ?thesis by (simp only: R) simp
  qed
qed

lemma buildVisibleTree_v1_canonical:
  "canonical t \<Longrightarrow> buildVisibleTree_v1 t e = buildVisibleTree_v2 t e"
proof (induction t)
  case (TNode i l cs)
  then have f: "filter (\<lambda>c. truthy (nid c)) cs = cs" by (auto simp: filter_id_conv)
  from TNode have "map (\<lambda>c. buildVisibleTree_v1 c e) cs = map (\<lambda>c. buildVisibleTree_v2 c e) cs"
    by auto
  with f show ?case by (auto simp: Let_def)
qed

lemma ids_buildVisibleTree_subset: "set (ids_pre (buildVisibleTree_v2 t e)) \<subseteq> set (ids_pre t)"
  by (induction t) auto

lemma walk_v1_canonical:
  "walk_v1 node a = (r, a') \<Longrightarrow> (\<forall>t. r = Some t \<longrightarrow> canonical t)"
  "walks_v1 cs a = (rs, a') \<Longrightarrow> (\<forall>t. Some t \<in> set rs \<longrightarrow> canonical t)"
proof (induction node a and cs a arbitrary: r a' and rs a' rule: walk_v1_walks_v1.induct)
  case (1 node auto)
  show ?case
  proof (cases "object_like node")
    case False
    with 1(2) show ?thesis by simp
  next
    case True
    define i where "i = (if absent (field node ''id'') then auto_id auto else the (field node ''id''))"
    define auto1 where "auto1 = (if absent (field node ''id'') then Suc auto else auto)"
    obtain rs auto2 where W: "walks_v1 (raw_children node) auto1 = (rs, auto2)" by force
    have pr: "(i, auto1) = (if absent (field node ''id'') then (auto_id auto, Suc auto) else (the (field node ''id''), auto))"
      by (simp add: i_def auto1_def)
    have nn: "\<not> \<not> object_like node" using True by simp
    from 1(1) [OF nn refl pr refl refl W]
    have IH: "\<forall>t. Some t \<in> set rs \<longrightarrow> canonical t" .
    from 1(2) True W pr [symmetric] obtain lbl where
      r: "r = Some (TNode i lbl (map the (filter survives_v1 rs)))"
      by (auto simp: Let_def)
    have "truthy (nid c) \<and> canonical c" if "c \<in> set (map the (filter survives_v1 rs))" for c
    proof -
      from that obtain q where q: "q \<in> set rs" "survives_v1 q" "c = the q" by auto
      from q(2) obtain t where "q = Some t" by (cases q) auto
      with q IH show ?thesis by auto
    qed
    with r show ?thesis by auto
  qed
next
  case (2 auto)
  then show ?case by simp
next
  case (3 c cs auto)
  obtain r1 auto1 where W1: "walk_v1 c auto = (r1, auto1)" by force
  obtain rs2 auto2 where W2: "walks_v1 cs auto1 = (rs2, auto2)" by force
  from 3(1) [OF W1] have IH1: "\<forall>t. r1 = Some t \<longrightarrow> canonical t" .
  from 3(2) [OF W1 [symmetric] refl W2] have IH2: "\<forall>t. Some t \<in> set rs2 \<longrightarrow> canonical t" .
  from 3(3) W1 W2 have rs: "rs = r1 # rs2" by auto
  with IH1 IH2 show ?case by auto
qed

lemma normalizeTree_v1_canonical: "normalizeTree_v1 input = Some t \<Longrightarrow> canonical t"
  using walk_v1_canonical(1) [of input 0 "Some t"]
  by (cases "walk_v1 input 0") (auto simp: normalizeTree_v1_def split: if_splits)

section \<open>Properties of the traversal\<close>

text \<open>
  \<open>descendants\<close> lists exactly the nodes of the hierarchy, and every link joins two
  of them, a node and one of its children.
\<close>

fun subnodes :: "hnode \<Rightarrow> hnode set" where
  "subnodes (HNode t d a b ks) = insert (HNode t d a b ks) (\<Union>k\<in>set ks. subnodes k)"

lemma subnodes_unfold: "subnodes n = insert n (\<Union>k\<in>set (hchildren n). subnodes k)"
  by (cases n) simp

lemma self_subnode: "n \<in> subnodes n"
  by (cases n) simp

lemma snd_set_bfs: "snd ` set (bfs es) = (\<Union>e\<in>set es. subnodes (snd e))"
proof (induction es rule: bfs.induct)
  case 1
  then show ?case by simp
next
  case (2 e es)
  let ?next = "concat (map (\<lambda>(p, n). map (\<lambda>c. (Some n, c)) (hchildren n)) (e # es))"
  have next_nodes: "(\<Union>e'\<in>set ?next. subnodes (snd e')) = (\<Union>e'\<in>set (e # es). \<Union>k\<in>set (hchildren (snd e')). subnodes k)"
    by (auto simp: split_def)
  have "snd ` set (bfs (e # es)) = snd ` set (e # es) \<union> snd ` set (bfs ?next)"
    by (simp add: image_Un)
  also have "\<dots> = snd ` set (e # es) \<union> (\<Union>e'\<in>set (e # es). \<Union>k\<in>set (hchildren (snd e')). subnodes k)"
    using 2 next_nodes by simp
  also have "\<dots> = (\<Union>e'\<in>set (e # es). insert (snd e') (\<Union>k\<in>set (hchildren (snd e')). subnodes k))"
    by auto
  also have "\<dots> = (\<Union>e'\<in>set (e # es). subnodes (snd e'))"
    by (rule SUP_cong [OF refl]) (rule subnodes_unfold [symmetric])
  finally show ?case .
qed

lemma set_descendants: "set (descendants rt) = subnodes rt"
  using snd_set_bfs [of "[(None, rt)]"] by (simp add: descendants_def)

lemma descendants_not_Nil: "descendants rt \<noteq> []"
  using set_descendants [of rt] self_subnode [of rt] by auto

lemma bfs_parents:
  "(Some s, n) \<in> set (bfs es) \<Longrightarrow>
     (Some s, n) \<in> set es \<or> (s \<in> (\<Union>e\<in>set es. subnodes (snd e)) \<and> n \<in> set (hchildren s))"
proof (induction es rule: bfs.induct)
  case 1
  then show ?case by simp
next
  case (2 e es)
  let ?next = "concat (map (\<lambda>(p, n). map (\<lambda>c. (Some n, c)) (hchildren n)) (e # es))"
  from "2.prems" consider "(Some s, n) \<in> set (e # es)" | "(Some s, n) \<in> set (bfs ?next)"
    by auto
  then show ?case
  proof cases
    case 1
    then show ?thesis by simp
  next
    case 2
    from "2.IH" [OF this] consider "(Some s, n) \<in> set ?next"
      | "s \<in> (\<Union>e'\<in>set ?next. subnodes (snd e'))" "n \<in> set (hchildren s)"
      by blast
    then show ?thesis
    proof cases
      case 1
      then have "\<exists>e'\<in>set (e # es). snd e' = s \<and> n \<in> set (hchildren s)"
        by (auto simp: split_def)
      then obtain e' where "e' \<in> set (e # es)" "snd e' = s" "n \<in> set (hchildren s)"
        by blast
      then show ?thesis using self_subnode [of s] by blast
    next
      case 2
      from 2(1) have "\<exists>e'\<in>set (e # es). s \<in> (\<Union>k\<in>set (hchildren (snd e')). subnodes k)"
        by (auto simp: split_def)
      then obtain e' where e': "e' \<in> set (e # es)" "s \<in> (\<Union>k\<in>set (hchildren (snd e')). subnodes k)"
        by blast
      then have "s \<in> subnodes (snd e')" by (subst subnodes_unfold) simp
      with e'(1) 2(2) show ?thesis by blast
    qed
  qed
qed

lemma hlinks_ends:
  assumes "(s, n) \<in> set (hlinks rt)"
  shows "s \<in> set (descendants rt) \<and> n \<in> set (descendants rt) \<and> n \<in> set (hchildren s)"
proof -
  from assms have in_bfs: "(Some s, n) \<in> set (bfs [(None, rt)])"
    by (auto simp: hlinks_def split: option.splits)
  from bfs_parents [OF this] have "s \<in> subnodes rt" "n \<in> set (hchildren s)" by auto
  moreover from in_bfs have "n \<in> snd ` set (bfs [(None, rt)])" by force
  then have "n \<in> subnodes rt" by (simp only: snd_set_bfs) simp
  ultimately show ?thesis by (simp add: set_descendants)
qed

lemma ids_place:
  "(nid \<circ> hdata) ` subnodes (place pos d p t) = set (ids_pre t)"
  "(nid \<circ> hdata) ` (\<Union>h\<in>set (place_kids pos d p k cs). subnodes h) = (\<Union>c\<in>set cs. set (ids_pre c))"
proof (induction pos d p t and pos d p k cs rule: place_place_kids.induct)
  case (1 pos d p i l cs)
  then show ?case by (simp add: image_Un image_UN)
next
  case (2 pos d p k)
  then show ?case by simp
next
  case (3 pos d p k c cs)
  then show ?case by (simp add: image_Un image_UN)
qed

section \<open>The shape of a layout\<close>

text \<open>
  Every id that a link looks up in \<open>byId\<close> is the id of a positioned node, so the
  layout never throws, and its result can be written down in closed form.
\<close>

lemma those_map_Some:
  "(\<forall>v\<in>set vs. f v \<noteq> None) \<Longrightarrow> those (map f vs) = Some (map (\<lambda>v. the (f v)) vs)"
  by (induction vs) auto

lemma dom_Map_of: "dom (Map_of entries) = fst ` set entries"
  by (simp add: Map_of_def dom_map_of_conv_image_fst)

lemma pid_shift_node [simp]: "pid (shift_node sx sy n) = pid n"
  by (simp add: shift_node_def)

lemma pid_node_v1 [simp]: "pid (node_v1 E h) = nid (hdata h)"
  by (simp add: node_v1_def Let_def)

definition scanned_v1 :: "props1 \<Rightarrow> pnode list \<Rightarrow> jsnum \<times> jsnum \<times> jsnum \<times> jsnum" where
  "scanned_v1 P ns = fold (scan_v1 P) ns (PosInf, NegInf, PosInf, NegInf)"

definition placed_v1 :: "tree_fn \<Rightarrow> props1 \<Rightarrow> tnode \<Rightarrow> hnode" where
  "placed_v1 tree_fn P vd = d3_tree tree_fn (nodeSpacing_y P, nodeSpacing_x P) vd"

lemma layout_v1_Some:
  fixes tree_fn P E vd
  defines "rt \<equiv> placed_v1 tree_fn P vd"
  defines "ns \<equiv> map (node_v1 E) (descendants rt)"
  defines "sx \<equiv> Fin (padding P) - fst (scanned_v1 P ns)"
  defines "sy \<equiv> Fin (padding P) - fst (snd (snd (scanned_v1 P ns)))"
  defines "byId \<equiv> Map_of (map (\<lambda>n. (pid n, n)) (map (shift_node sx sy) ns))"
  shows "layout_v1 tree_fn P E (Some vd) =
    Inr \<lparr>nodes = map (shift_node sx sy) ns,
         links = map (\<lambda>l. the (link_v1 P byId l)) (hlinks rt),
         bounds = \<lparr>maxX = fst (snd (scanned_v1 P ns)) + sx + Fin (padding P),
                    maxY = snd (snd (snd (scanned_v1 P ns))) + sy + Fin (padding P),
                    minX = Fin (padding P), minY = Fin (padding P)\<rparr>\<rparr>"
proof -
  have dom: "dom byId = (nid \<circ> hdata) ` set (descendants rt)"
    by (simp add: byId_def dom_Map_of ns_def image_image comp_def)
  have "link_v1 P byId l \<noteq> None" if "l \<in> set (hlinks rt)" for l
  proof -
    obtain s n where l: "l = (s, n)" by (cases l)
    with that hlinks_ends [of s n rt] have "s \<in> set (descendants rt)" "n \<in> set (descendants rt)"
      by auto
    with dom have "nid (hdata s) \<in> dom byId" "nid (hdata n) \<in> dom byId" by auto
    then show ?thesis by (auto simp: link_v1_def l Let_def)
  qed
  then have "those (map (link_v1 P byId) (hlinks rt)) = Some (map (\<lambda>l. the (link_v1 P byId l)) (hlinks rt))"
    by (intro those_map_Some) auto
  then show ?thesis
    unfolding layout_v1_def
    by (simp add: Let_def split_def rt_def placed_v1_def ns_def scanned_v1_def sx_def sy_def byId_def
          del: map_map)
qed

subsection \<open>The canvas\<close>

text \<open>
  The canvas after a call of \<open>measureText\<close> that passes no font. Once a pass has
  wrapped a label, the font of the canvas is \<open>FONT\<close>, and the widths that
  \<open>lines.map(measureText)\<close> measures are those under \<open>FONT\<close> as well.
\<close>

definition after :: "document \<Rightarrow> canvas \<Rightarrow> canvas" where
  "after doc canvas = (case doc of None \<Rightarrow> canvas | Some width \<Rightarrow> Some FONT)"

lemma after_after [simp]: "after doc (after doc canvas) = after doc canvas"
  by (simp add: after_def split: option.splits)

lemma measureText_None: "measureText doc text None canvas = (text_width doc text, after doc canvas)"
  by (simp add: measureText_def text_width_def after_def Let_def split: option.splits)

lemma measureText_index:
  "measureText doc text (Some i) (after doc canvas) = (text_width doc text, after doc canvas)"
  by (simp add: measureText_def text_width_def after_def Let_def split: option.splits)

definition wrap_lines :: "document \<Rightarrow> real \<Rightarrow> string \<Rightarrow> string list \<times> string \<Rightarrow> string list \<times> string" where
  "wrap_lines doc maxWidth word state =
     (let test = (if snd state \<noteq> [] then snd state @ '' '' @ word else word)
      in if text_width doc test > maxWidth \<and> snd state \<noteq> [] then (fst state @ [snd state], word)
         else (fst state, test))"

lemma wrap_step_lines:
  "wrap_step doc maxWidth word (ls, line, canvas) =
     (fst (wrap_lines doc maxWidth word (ls, line)), snd (wrap_lines doc maxWidth word (ls, line)),
      after doc canvas)"
proof (cases "line = []")
  case True
  then show ?thesis
    by (simp add: wrap_step_def wrap_lines_def measureText_None)
next
  case False
  then show ?thesis
    by (cases "maxWidth < text_width doc (line @ '' '' @ word)")
       (simp_all add: wrap_step_def wrap_lines_def measureText_None)
qed

lemma fold_wrap_step_lines:
  "fold (wrap_step doc maxWidth) ws (ls, line, canvas) =
     (fst (fold (wrap_lines doc maxWidth) ws (ls, line)), snd (fold (wrap_lines doc maxWidth) ws (ls, line)),
      if ws = [] then canvas else after doc canvas)"
proof (induction ws arbitrary: ls line canvas)
  case Nil
  then show ?case by simp
next
  case (Cons w ws)
  obtain ls1 line1 where s: "wrap_lines doc maxWidth w (ls, line) = (ls1, line1)" by force
  with Cons [of ls1 line1 "after doc canvas"] show ?case
    by (simp add: wrap_step_lines)
qed

definition wrapped :: "document \<Rightarrow> json \<Rightarrow> string list" where
  "wrapped doc text = fst (wrapText doc text MAX_TEXT_WIDTH None)"

lemma wrapText_canvas:
  "wrapText doc text MAX_TEXT_WIDTH canvas = (wrapped doc text, after doc canvas)"
  using split_space_not_Nil [of "String_js text"]
  by (simp add: wrapped_def wrapText_def fold_wrap_step_lines Let_def after_def split: option.splits)

lemma map_measureText_after:
  "map_measureText doc ls i (after doc canvas) = (map (text_width doc) ls, after doc canvas)"
  by (induction ls arbitrary: i) (simp_all add: measureText_index)

definition node_of_v2 :: "document \<Rightarrow> json set \<Rightarrow> hnode \<Rightarrow> pnode2" where
  "node_of_v2 doc E n =
     \<lparr>x = Fin (hy n), y = Fin (hx n), pid = nid (hdata n), plabel = label (hdata n),
      depth = hdepth n, hasChildren = (nid (hdata n) \<in> E),
      boxW = Math_max_all (map (\<lambda>l. Fin (text_width doc l)) (wrapped doc (label (hdata n))))
               + Fin (PADDING_X * 2),
      boxH = real (length (wrapped doc (label (hdata n)))) * LINE_HEIGHT + PADDING_Y * 2,
      lines = wrapped doc (label (hdata n))\<rparr>"

lemma node_v2_canvas: "node_v2 doc E n canvas = (node_of_v2 doc E n, after doc canvas)"
  by (simp add: node_v2_def node_of_v2_def wrapText_canvas map_measureText_after comp_def)

lemma nodes_v2_canvas:
  "nodes_v2 doc E hs canvas = (map (node_of_v2 doc E) hs, if hs = [] then canvas else after doc canvas)"
  by (induction hs arbitrary: canvas) (simp_all add: node_v2_canvas)

lemma pid_node_of_v2 [simp]: "pid (node_of_v2 doc E h) = nid (hdata h)"
  by (simp add: node_of_v2_def)

definition scanned_v2 :: "pnode2 list \<Rightarrow> jsnum \<times> jsnum \<times> jsnum \<times> jsnum" where
  "scanned_v2 ns = fold scan_v2 ns (PosInf, PosInf, NegInf, NegInf)"

definition placed_v2 :: "tree_fn \<Rightarrow> props \<Rightarrow> tnode \<Rightarrow> hnode" where
  "placed_v2 tree_fn P vd = d3_tree tree_fn (nodeSpacing_y P, nodeSpacing_x P) vd"

lemma layout_v2_Some:
  fixes tree_fn doc P E vd
  defines "rt \<equiv> placed_v2 tree_fn P vd"
  defines "ns \<equiv> map (node_of_v2 doc E) (descendants rt)"
  defines "sx \<equiv> Fin (padding P) - fst (scanned_v2 ns)"
  defines "sy \<equiv> Fin (padding P) - fst (snd (scanned_v2 ns))"
  defines "byId \<equiv> Map_of (map (\<lambda>n. (pid n, n)) (map (shift_node sx sy) ns))"
  shows "layout_v2 tree_fn doc P E (Some vd) canvas =
    (Inr \<lparr>nodes = map (shift_node sx sy) ns,
          links = map (\<lambda>l. the (link_v2 byId l)) (hlinks rt),
          bounds = \<lparr>maxX = fst (snd (snd (scanned_v2 ns))) + sx + Fin (padding P),
                     maxY = snd (snd (snd (scanned_v2 ns))) + sy + Fin (padding P)\<rparr>\<rparr>,
     after doc canvas)"
proof -
  have dom: "dom byId = (nid \<circ> hdata) ` set (descendants rt)"
    by (simp add: byId_def dom_Map_of ns_def image_image comp_def)
  have "link_v2 byId l \<noteq> None" if "l \<in> set (hlinks rt)" for l
  proof -
    obtain s n where l: "l = (s, n)" by (cases l)
    with that hlinks_ends [of s n rt] have "s \<in> set (descendants rt)" "n \<in> set (descendants rt)"
      by auto
    with dom have "nid (hdata s) \<in> dom byId" "nid (hdata n) \<in> dom byId" by auto
    then show ?thesis by (auto simp: link_v2_def l Let_def)
  qed
  then have th: "those (map (link_v2 byId) (hlinks rt)) = Some (map (\<lambda>l. the (link_v2 byId l)) (hlinks rt))"
    by (intro those_map_Some) auto
  have n: "nodes_v2 doc E (descendants rt) canvas = (ns, after doc canvas)"
    by (simp add: nodes_v2_canvas descendants_not_Nil ns_def)
  have sc: "fold scan_v2 ns (PosInf, PosInf, NegInf, NegInf) = scanned_v2 ns"
    by (simp add: scanned_v2_def)
  obtain a b c d where abcd: "scanned_v2 ns = (a, b, c, d)"
    by (cases "scanned_v2 ns") auto
  have sx: "sx = Fin (padding P) - a" and sy: "sy = Fin (padding P) - b"
    by (simp_all add: sx_def sy_def abcd)
  show ?thesis
    unfolding layout_v2_def option.case Let_def placed_v2_def [symmetric] rt_def [symmetric]
      n prod.case sc abcd sx [symmetric] sy [symmetric] byId_def [symmetric] th
    by (simp add: abcd)
qed

text \<open>
  C10. Two layout passes over the same arguments return the same positioned nodes, links
  and bounds. The first variant's layout reads nothing but its arguments. The second
  variant measures text through the canvas that \<open>measureText\<close> keeps between calls;
  its result is the same in whatever state a pass finds that canvas, and a second pass,
  which starts from the canvas the first pass left, returns what the first returned.
\<close>

theorem layout_deterministic:
  "fst (layout_v2 tree_fn doc P E visibleData canvas) = fst (layout_v2 tree_fn doc P E visibleData canvas')
   \<and> fst (layout_v2 tree_fn doc P E visibleData (snd (layout_v2 tree_fn doc P E visibleData canvas)))
       = fst (layout_v2 tree_fn doc P E visibleData canvas)"
proof (cases visibleData)
  case None
  then show ?thesis by (simp add: layout_v2_def)
next
  case (Some vd)
  then show ?thesis by (simp only: layout_v2_Some fst_conv)
qed

section \<open>The ids of the positioned nodes\<close>

lemma ids_d3_tree: "(nid \<circ> hdata) ` set (descendants (d3_tree tree_fn ns vd)) = set (ids_pre vd)"
  using ids_place(1) [of "tree_fn ns vd" 0 "[]" vd] by (simp add: set_descendants d3_tree_def)

lemma layout_v1_ids:
  "\<exists>L. layout_v1 tree_fn P E (Some vd) = Inr L \<and> pid ` set (nodes L) = set (ids_pre vd)"
proof -
  have "pid ` set (map (shift_node sx sy) (map (node_v1 E) (descendants (placed_v1 tree_fn P vd))))
          = set (ids_pre vd)" for sx sy
    using ids_d3_tree [of tree_fn "(nodeSpacing_y P, nodeSpacing_x P)" vd]
    by (simp add: placed_v1_def image_image comp_def)
  then show ?thesis
    by (simp only: layout_v1_Some) simp
qed

lemma layout_v2_ids:
  "\<exists>L c. layout_v2 tree_fn doc P E (Some vd) canvas = (Inr L, c) \<and> pid ` set (nodes L) = set (ids_pre vd)"
proof -
  have "pid ` set (map (shift_node sx sy) (map (node_of_v2 doc E) (descendants (placed_v2 tree_fn P vd))))
          = set (ids_pre vd)" for sx sy
    using ids_d3_tree [of tree_fn "(nodeSpacing_y P, nodeSpacing_x P)" vd]
    by (simp add: placed_v2_def image_image comp_def)
  then show ?thesis
    by (simp only: layout_v2_Some) simp
qed

lemma root_reachable_id: "nid t \<in> nid ` {n. reachable e t n}"
  by (blast intro: reachable.intros)

text \<open>
  C1. For every canonical tree and every expanded set, a layout pass over the visible tree
  returns positioned nodes whose ids are exactly the ids of the nodes reachable from the
  canonical root through children of expanded nodes; they are ids of the canonical tree,
  and the root's id is among them whether or not the root is expanded. For the first
  variant the canonical tree is any output of its \<open>normalizeTree\<close>; for the second
  it is any tree.
\<close>

theorem visible_ids:
  "(normalizeTree_v1 input = Some t \<longrightarrow>
      (\<exists>L. layout_v1 tree_fn P1 E (visibleData_v1 (Some t) expanded) = Inr L
          \<and> pid ` set (nodes L) = nid ` {n. reachable expanded t n}
          \<and> pid ` set (nodes L) \<subseteq> set (ids_pre t)
          \<and> nid t \<in> pid ` set (nodes L)))
   \<and> (\<exists>L c. layout_v2 tree_fn doc P E (visibleData_v2 (Some t2) expanded) canvas = (Inr L, c)
          \<and> pid ` set (nodes L) = nid ` {n. reachable expanded t2 n}
          \<and> pid ` set (nodes L) \<subseteq> set (ids_pre t2)
          \<and> nid t2 \<in> pid ` set (nodes L))"
proof (intro conjI impI)
  assume "normalizeTree_v1 input = Some t"
  then have c: "canonical t" by (rule normalizeTree_v1_canonical)
  obtain L where L: "layout_v1 tree_fn P1 E (Some (buildVisibleTree_v1 t expanded)) = Inr L"
    and ids: "pid ` set (nodes L) = set (ids_pre (buildVisibleTree_v1 t expanded))"
    using layout_v1_ids by blast
  from ids c have eq: "pid ` set (nodes L) = nid ` {n. reachable expanded t n}"
    by (simp add: buildVisibleTree_v1_canonical ids_buildVisibleTree_v2)
  moreover from ids c have "pid ` set (nodes L) \<subseteq> set (ids_pre t)"
    using ids_buildVisibleTree_subset [of t expanded] by (simp add: buildVisibleTree_v1_canonical)
  moreover have "nid t \<in> pid ` set (nodes L)"
    unfolding eq by (rule root_reachable_id)
  ultimately show "\<exists>L. layout_v1 tree_fn P1 E (visibleData_v1 (Some t) expanded) = Inr L
          \<and> pid ` set (nodes L) = nid ` {n. reachable expanded t n}
          \<and> pid ` set (nodes L) \<subseteq> set (ids_pre t)
          \<and> nid t \<in> pid ` set (nodes L)"
    using L by (auto simp: visibleData_v1_def)
next
  obtain L c where L: "layout_v2 tree_fn doc P E (Some (buildVisibleTree_v2 t2 expanded)) canvas = (Inr L, c)"
    and ids: "pid ` set (nodes L) = set (ids_pre (buildVisibleTree_v2 t2 expanded))"
    using layout_v2_ids by blast
  from ids have eq: "pid ` set (nodes L) = nid ` {n. reachable expanded t2 n}"
    by (simp add: ids_buildVisibleTree_v2)
  moreover from ids have "pid ` set (nodes L) \<subseteq> set (ids_pre t2)"
    using ids_buildVisibleTree_subset [of t2 expanded] by simp
  moreover have "nid t2 \<in> pid ` set (nodes L)"
    unfolding eq by (rule root_reachable_id)
  ultimately show "\<exists>L c. layout_v2 tree_fn doc P E (visibleData_v2 (Some t2) expanded) canvas = (Inr L, c)
          \<and> pid ` set (nodes L) = nid ` {n. reachable expanded t2 n}
          \<and> pid ` set (nodes L) \<subseteq> set (ids_pre t2)
          \<and> nid t2 \<in> pid ` set (nodes L)"
    using L by (auto simp: visibleData_v2_def)
qed

definition ex_tree :: json where
  "ex_tree = JObj [(''id'', JStr ''r''), (''label'', JStr ''Root''),
     (''children'', JArr [JObj [(''id'', JStr ''a''), (''children'', JArr [JObj [(''id'', JStr ''c'')]])],
                          JObj [(''id'', JStr ''b'')]])]"

definition ex_canonical :: tnode where
  "ex_canonical = TNode (JStr ''r'') (JStr ''Root'')
     [TNode (JStr ''a'') (JStr ''a'') [TNode (JStr ''c'') (JStr ''c'') []],
      TNode (JStr ''b'') (JStr ''b'') []]"

lemma normalize_ex_tree: "normalizeTree_v1 ex_tree = Some ex_canonical"
  by (simp add: normalizeTree_v1_def ex_tree_def ex_canonical_def raw_children_def)

theorem visible_ids_witness:
  "normalizeTree_v1 ex_tree = Some ex_canonical
   \<and> (\<exists>L. layout_v1 tidy_tree default_props1 {JStr ''r'', JStr ''a''}
             (visibleData_v1 (Some ex_canonical) {JStr ''r''}) = Inr L
         \<and> pid ` set (nodes L) = {JStr ''r'', JStr ''a'', JStr ''b''})
   \<and> (\<exists>L c. layout_v2 tidy_tree fixed_pitch default_props {JStr ''r'', JStr ''a''}
             (visibleData_v2 (Some ex_canonical) {JStr ''r''}) None = (Inr L, c)
         \<and> pid ` set (nodes L) = {JStr ''r'', JStr ''a'', JStr ''b''})"
proof -
  have r: "nid ` {n. reachable {JStr ''r''} ex_canonical n} = {JStr ''r'', JStr ''a'', JStr ''b''}"
    by (simp add: ids_buildVisibleTree_v2 [symmetric] ex_canonical_def insert_commute)
  note v = visible_ids [of ex_tree ex_canonical tidy_tree default_props1 "{JStr ''r'', JStr ''a''}"
      "{JStr ''r''}" fixed_pitch default_props ex_canonical None]
  from v [THEN conjunct1, THEN mp, OF normalize_ex_tree]
  obtain L1 where L1: "layout_v1 tidy_tree default_props1 {JStr ''r'', JStr ''a''}
             (visibleData_v1 (Some ex_canonical) {JStr ''r''}) = Inr L1"
    and i1: "pid ` set (nodes L1) = nid ` {n. reachable {JStr ''r''} ex_canonical n}"
    by (elim exE conjE)
  from v [THEN conjunct2]
  obtain L2 c2 where L2: "layout_v2 tidy_tree fixed_pitch default_props {JStr ''r'', JStr ''a''}
             (visibleData_v2 (Some ex_canonical) {JStr ''r''}) None = (Inr L2, c2)"
    and i2: "pid ` set (nodes L2) = nid ` {n. reachable {JStr ''r''} ex_canonical n}"
    by (elim exE conjE)
  from L1 i1 have "\<exists>L. layout_v1 tidy_tree default_props1 {JStr ''r'', JStr ''a''}
             (visibleData_v1 (Some ex_canonical) {JStr ''r''}) = Inr L
         \<and> pid ` set (nodes L) = {JStr ''r'', JStr ''a'', JStr ''b''}"
    unfolding r by (intro exI conjI)
  moreover from L2 i2 have "\<exists>L c. layout_v2 tidy_tree fixed_pitch default_props {JStr ''r'', JStr ''a''}
             (visibleData_v2 (Some ex_canonical) {JStr ''r''}) None = (Inr L, c)
         \<and> pid ` set (nodes L) = {JStr ''r'', JStr ''a'', JStr ''b''}"
    unfolding r by (intro exI conjI)
  ultimately show ?thesis
    using normalize_ex_tree by (intro conjI)
qed

section \<open>Properties of the bounds\<close>

subsection \<open>The extent of a box\<close>

text \<open>
  The extent of a positioned node as the loop over the nodes takes it when it widens
  \<open>minX, maxX, minY, maxY\<close>: from \<open>x\<close> to \<open>x + LABEL_X + boxW\<close> in the
  first variant and to \<open>x + boxW + 40\<close> in the second, and from \<open>y - boxH / 2\<close>
  to \<open>y + boxH / 2\<close>.
\<close>

definition left_of :: "'a pnode_scheme \<Rightarrow> jsnum" where
  "left_of n = x n"

definition right_of_v1 :: "props1 \<Rightarrow> pnode \<Rightarrow> jsnum" where
  "right_of_v1 P n = x n + Fin (LABEL_X P) + boxW n"

definition right_of_v2 :: "pnode2 \<Rightarrow> jsnum" where
  "right_of_v2 n = x n + boxW n + Fin 40"

definition top_of :: "'a pnode_scheme \<Rightarrow> jsnum" where
  "top_of n = y n - Fin (boxH n / 2)"

definition bottom_of :: "'a pnode_scheme \<Rightarrow> jsnum" where
  "bottom_of n = y n + Fin (boxH n / 2)"

lemma scan_v1_parts:
  "scan_v1 P n (a, b, c, d)
     = (Math_min a (left_of n), Math_max b (right_of_v1 P n), Math_min c (top_of n), Math_max d (bottom_of n))"
  by (simp add: scan_v1_def left_of_def right_of_v1_def top_of_def bottom_of_def)

lemma scan_v2_parts:
  "scan_v2 n (a, b, c, d)
     = (Math_min a (left_of n), Math_min b (top_of n), Math_max c (right_of_v2 n), Math_max d (bottom_of n))"
  by (simp add: scan_v2_def left_of_def right_of_v2_def top_of_def bottom_of_def)

lemma fold_scan_v1:
  "fold (scan_v1 P) ns (a, b, c, d)
     = (fold (\<lambda>n a. Math_min a (left_of n)) ns a, fold (\<lambda>n b. Math_max b (right_of_v1 P n)) ns b,
        fold (\<lambda>n c. Math_min c (top_of n)) ns c, fold (\<lambda>n d. Math_max d (bottom_of n)) ns d)"
  by (induction ns arbitrary: a b c d) (simp_all add: scan_v1_parts)

lemma fold_scan_v2:
  "fold scan_v2 ns (a, b, c, d)
     = (fold (\<lambda>n a. Math_min a (left_of n)) ns a, fold (\<lambda>n b. Math_min b (top_of n)) ns b,
        fold (\<lambda>n c. Math_max c (right_of_v2 n)) ns c, fold (\<lambda>n d. Math_max d (bottom_of n)) ns d)"
  by (induction ns arbitrary: a b c d) (simp_all add: scan_v2_parts)

lemma fold_Math_min:
  assumes "ns \<noteq> []" and "\<forall>n\<in>set ns. f n = Fin (g n)"
  shows "fold (\<lambda>n a. Math_min a (f n)) ns PosInf = Fin (Min (g ` set ns))"
  using assms
proof (induction ns rule: rev_nonempty_induct)
  case (single n)
  then show ?case by simp
next
  case (snoc n ns)
  then have "fold (\<lambda>n a. Math_min a (f n)) ns PosInf = Fin (Min (g ` set ns))" by simp
  moreover from snoc have "f n = Fin (g n)" by simp
  moreover have "Min (g ` set (ns @ [n])) = min (Min (g ` set ns)) (g n)"
    using snoc(1) by (simp add: min.commute)
  ultimately show ?case by simp
qed

text \<open>A number that is finite or \<open>-Infinity\<close>, as the width of a box is.\<close>

definition below :: "jsnum \<Rightarrow> bool" where
  "below v = (v = NegInf \<or> (\<exists>r. v = Fin r))"

lemma Math_max_below:
  assumes "below a" and "below b"
  shows "below (Math_max a b)" and "a \<le> Math_max a b" and "b \<le> Math_max a b"
  using assms by (auto simp: below_def)

lemma le_trans_below: "a \<le> b \<Longrightarrow> b \<le> c \<Longrightarrow> a \<le> (c :: jsnum)"
  by (cases a; cases b; cases c) auto

lemma fold_Math_max:
  assumes "\<forall>n\<in>set ns. below (f n)"
  shows "below (fold (\<lambda>n a. Math_max a (f n)) ns NegInf)
         \<and> (\<forall>n\<in>set ns. f n \<le> fold (\<lambda>n a. Math_max a (f n)) ns NegInf)"
  using assms
proof (induction ns rule: rev_induct)
  case Nil
  then show ?case by (simp add: below_def)
next
  case (snoc n ns)
  let ?M = "fold (\<lambda>n a. Math_max a (f n)) ns NegInf"
  from snoc have IH: "below ?M" "\<forall>m\<in>set ns. f m \<le> ?M" and n: "below (f n)" by simp_all
  have "m \<le> Math_max ?M (f n)" if "m \<le> ?M" for m
    using that Math_max_below(2) [OF IH(1) n] by (rule le_trans_below)
  with IH Math_max_below [OF IH(1) n] show ?case by simp
qed

subsection \<open>The shift\<close>

text \<open>
  A node is anchored when its coordinates are finite and its width is finite or
  \<open>-Infinity\<close> (the width of a box without lines); \<open>fin\<close> reads a finite number.
\<close>

fun fin :: "jsnum \<Rightarrow> real" where
  "fin (Fin r) = r"
| "fin v = 0"

definition anchored :: "'a pnode_scheme \<Rightarrow> bool" where
  "anchored n = ((\<exists>a. x n = Fin a) \<and> (\<exists>b. y n = Fin b) \<and> below (boxW n))"

lemma anchored_left: "anchored n \<Longrightarrow> left_of n = Fin (fin (x n))"
  by (auto simp: anchored_def left_of_def)

lemma anchored_top: "anchored n \<Longrightarrow> top_of n = Fin (fin (y n) - boxH n / 2)"
  by (auto simp: anchored_def top_of_def minus_jsnum_def)

lemma anchored_bottom: "anchored n \<Longrightarrow> bottom_of n = Fin (fin (y n) + boxH n / 2)"
  by (auto simp: anchored_def bottom_of_def)




lemma shift_top:
  "anchored n \<Longrightarrow> top_of (shift_node (Fin s) (Fin t) n) = Fin (fin (y n) - boxH n / 2 + t)"
  by (auto simp: anchored_def top_of_def shift_node_def minus_jsnum_def)

lemma shift_bottom:
  "anchored n \<Longrightarrow> bottom_of (shift_node (Fin s) (Fin t) n) = bottom_of n + Fin t"
  by (auto simp: anchored_def bottom_of_def shift_node_def)




lemma scan_minimum:
  assumes "ns \<noteq> []" and "\<forall>n\<in>set ns. anchored n"
  shows "fold (\<lambda>n a. Math_min a (left_of n)) ns PosInf = Fin (Min ((\<lambda>n. fin (x n)) ` set ns))"
    and "fold (\<lambda>n a. Math_min a (top_of n)) ns PosInf = Fin (Min ((\<lambda>n. fin (y n) - boxH n / 2) ` set ns))"
  using assms by (auto intro!: fold_Math_min simp: anchored_left anchored_top)


lemma anchored_node_v1: "anchored (node_v1 E h)"
  by (simp add: anchored_def node_v1_def Let_def below_def)

lemma Math_max_all_below: "below (Math_max_all (map (\<lambda>l. Fin (f l)) ls))"
  using fold_Math_max [of "map (\<lambda>l. Fin (f l)) ls" "\<lambda>v. v"]
  by (auto simp: Math_max_all_def below_def)

lemma anchored_node_of_v2: "anchored (node_of_v2 doc E h)"
  using Math_max_all_below [of "text_width doc" "wrapped doc (label (hdata h))"]
  by (auto simp: anchored_def node_of_v2_def below_def)

lemma scanned_v1_parts:
  "scanned_v1 P ns
     = (fold (\<lambda>n a. Math_min a (left_of n)) ns PosInf, fold (\<lambda>n b. Math_max b (right_of_v1 P n)) ns NegInf,
        fold (\<lambda>n c. Math_min c (top_of n)) ns PosInf, fold (\<lambda>n d. Math_max d (bottom_of n)) ns NegInf)"
  by (simp add: scanned_v1_def fold_scan_v1)

lemma scanned_v2_parts:
  "scanned_v2 ns
     = (fold (\<lambda>n a. Math_min a (left_of n)) ns PosInf, fold (\<lambda>n b. Math_min b (top_of n)) ns PosInf,
        fold (\<lambda>n c. Math_max c (right_of_v2 n)) ns NegInf, fold (\<lambda>n d. Math_max d (bottom_of n)) ns NegInf)"
  by (simp add: scanned_v2_def fold_scan_v2)




section \<open>Properties of sibling boxes\<close>

text \<open>
  What the layout needs of \<open>tree().nodeSize([gap, _])\<close>: along the order axis the
  children of every node stand in input order, each at least \<open>gap\<close> from the next.
\<close>

definition siblings_apart :: "real \<Rightarrow> hnode \<Rightarrow> bool" where
  "siblings_apart gap rt =
     (\<forall>p\<in>set (descendants rt). sorted_wrt (\<lambda>a b. hx a + gap \<le> hx b) (hchildren p))"

lemma y_node_v1: "y (node_v1 E h) = Fin (hx h)" and boxH_node_v1: "boxH (node_v1 E h) = 44"
  by (simp_all add: node_v1_def Let_def)

lemma y_node_of_v2: "y (node_of_v2 doc E h) = Fin (hx h)"
  and boxH_node_of_v2: "boxH (node_of_v2 doc E h) = real (length (wrapped doc (label (hdata h)))) * 20 + 36"
  and lines_node_of_v2: "lines (node_of_v2 doc E h) = wrapped doc (label (hdata h))"
  by (simp_all add: node_of_v2_def LINE_HEIGHT_def PADDING_Y_def)

lemma boxH_shift_node [simp]: "boxH (shift_node sx sy n) = boxH n"
  by (simp add: shift_node_def)

lemma lines_shift_node [simp]: "lines (shift_node sx sy n) = lines n"
  by (simp add: shift_node_def)

lemma scanned_v1_low:
  assumes "ns \<noteq> []" and "\<forall>n\<in>set ns. anchored n"
  shows "\<exists>a b. fst (scanned_v1 P ns) = Fin a \<and> fst (snd (snd (scanned_v1 P ns))) = Fin b"
  using scan_minimum [OF assms] by (simp add: scanned_v1_parts)

lemma scanned_v2_low:
  assumes "ns \<noteq> []" and "\<forall>n\<in>set ns. anchored n"
  shows "\<exists>a b. fst (scanned_v2 ns) = Fin a \<and> fst (snd (scanned_v2 ns)) = Fin b"
  using scan_minimum [OF assms] by (simp add: scanned_v2_parts)

lemma layout_v1_siblings:
  assumes apart: "siblings_apart (nodeSpacing_y P) (placed_v1 tree_fn P vd)"
    and gap: "44 < nodeSpacing_y P"
  shows "\<exists>L N. layout_v1 tree_fn P E (Some vd) = Inr L
    \<and> nodes L = map N (descendants (placed_v1 tree_fn P vd))
    \<and> (\<forall>p\<in>set (descendants (placed_v1 tree_fn P vd)).
          sorted_wrt (\<lambda>a b. bottom_of (N a) < top_of (N b)) (hchildren p))"
proof -
  let ?dn = "descendants (placed_v1 tree_fn P vd)"
  let ?ns = "map (node_v1 E) ?dn"
  have ne: "?ns \<noteq> []" by (simp add: descendants_not_Nil)
  have anch: "\<forall>n\<in>set ?ns. anchored n" by (auto simp: anchored_node_v1)
  from scanned_v1_low [OF ne anch, of P] obtain a b where
    low: "fst (scanned_v1 P ?ns) = Fin a" "fst (snd (snd (scanned_v1 P ?ns))) = Fin b"
    by blast
  define s where "s = padding P - a"
  define t where "t = padding P - b"
  define N where "N = (\<lambda>h. shift_node (Fin s) (Fin t) (node_v1 E h))"
  have L: "\<exists>L. layout_v1 tree_fn P E (Some vd) = Inr L \<and> nodes L = map N ?dn"
    by (simp only: layout_v1_Some low) (simp add: N_def s_def t_def minus_jsnum_def)
  have sep: "bottom_of (N h) < top_of (N k)" if "hx h + nodeSpacing_y P \<le> hx k" for h k
    using that gap
    by (simp add: N_def shift_top shift_bottom anchored_bottom anchored_node_v1 y_node_v1 boxH_node_v1)
  have "sorted_wrt (\<lambda>a b. bottom_of (N a) < top_of (N b)) (hchildren p)" if "p \<in> set ?dn" for p
  proof -
    from apart that have "sorted_wrt (\<lambda>a b. hx a + nodeSpacing_y P \<le> hx b) (hchildren p)"
      by (simp add: siblings_apart_def)
    then show ?thesis by (rule sorted_wrt_mono_rel [rotated]) (rule sep)
  qed
  with L show ?thesis by blast
qed

lemma layout_v2_siblings:
  assumes apart: "siblings_apart (nodeSpacing_y P) (placed_v2 tree_fn P vd)"
  shows "\<exists>L c N. layout_v2 tree_fn doc P E (Some vd) canvas = (Inr L, c)
    \<and> nodes L = map N (descendants (placed_v2 tree_fn P vd))
    \<and> (\<forall>h. boxH (N h) = real (length (lines (N h))) * 20 + 36)
    \<and> (\<forall>p\<in>set (descendants (placed_v2 tree_fn P vd)).
          sorted_wrt (\<lambda>a b. boxH (N a) / 2 + boxH (N b) / 2 < nodeSpacing_y P
                               \<longrightarrow> bottom_of (N a) < top_of (N b)) (hchildren p))"
proof -
  let ?dn = "descendants (placed_v2 tree_fn P vd)"
  let ?ns = "map (node_of_v2 doc E) ?dn"
  have ne: "?ns \<noteq> []" by (simp add: descendants_not_Nil)
  have anch: "\<forall>n\<in>set ?ns. anchored n" by (auto simp: anchored_node_of_v2)
  from scanned_v2_low [OF ne anch] obtain a b where
    low: "fst (scanned_v2 ?ns) = Fin a" "fst (snd (scanned_v2 ?ns)) = Fin b"
    by blast
  define s where "s = padding P - a"
  define t where "t = padding P - b"
  define N where "N = (\<lambda>h. shift_node (Fin s) (Fin t) (node_of_v2 doc E h))"
  have L: "\<exists>L c. layout_v2 tree_fn doc P E (Some vd) canvas = (Inr L, c) \<and> nodes L = map N ?dn"
    by (simp only: layout_v2_Some low) (simp add: N_def s_def t_def minus_jsnum_def)
  have sep: "boxH (N h) / 2 + boxH (N k) / 2 < nodeSpacing_y P \<longrightarrow> bottom_of (N h) < top_of (N k)"
    if "hx h + nodeSpacing_y P \<le> hx k" for h k
    using that
    by (simp add: N_def shift_top shift_bottom anchored_bottom anchored_node_of_v2 y_node_of_v2)
  have "sorted_wrt (\<lambda>a b. boxH (N a) / 2 + boxH (N b) / 2 < nodeSpacing_y P
                               \<longrightarrow> bottom_of (N a) < top_of (N b)) (hchildren p)"
    if "p \<in> set ?dn" for p
  proof -
    from apart that have "sorted_wrt (\<lambda>a b. hx a + nodeSpacing_y P \<le> hx b) (hchildren p)"
      by (simp add: siblings_apart_def)
    then show ?thesis by (rule sorted_wrt_mono_rel [rotated]) (rule sep)
  qed
  moreover have "\<forall>h. boxH (N h) = real (length (lines (N h))) * 20 + 36"
    by (simp add: N_def boxH_node_of_v2 lines_node_of_v2)
  ultimately show ?thesis using L by blast
qed

subsection \<open>The tidy-tree routine keeps siblings apart\<close>

text \<open>
  A subtree placed from \<open>lo\<close> on sits at least half a unit inside its interval, at
  both ends, and the median of positions lies between the least and the greatest of them.
  So the order positions of siblings grow by at least one unit from each to the next.
\<close>

lemma median_bounds:
  assumes "os \<noteq> []" and "\<forall>v\<in>set os. A \<le> v \<and> v \<le> B"
  shows "A \<le> median os \<and> median os \<le> B"
proof -
  let ?n = "length os"
  from assms(1) have n: "0 < ?n" by simp
  then have "?n div 2 < ?n" "?n div 2 - 1 < ?n" by arith+
  then have "os ! (?n div 2) \<in> set os" "os ! (?n div 2 - 1) \<in> set os" by simp_all
  with assms(2) have "A \<le> os ! (?n div 2)" "os ! (?n div 2) \<le> B"
    "A \<le> os ! (?n div 2 - 1)" "os ! (?n div 2 - 1) \<le> B"
    by blast+
  then show ?thesis by (simp add: median_def Let_def)
qed

lemma order_bounds:
  "lo + 1 / 2 \<le> order_at t lo \<and> order_at t lo \<le> lo + real (extent t) - 1 / 2"
  "sorted_wrt (\<lambda>a b. a + 1 \<le> b) (orders cs lo)
     \<and> (\<forall>v\<in>set (orders cs lo). lo + 1 / 2 \<le> v \<and> v \<le> lo + real (sum_list (map extent cs)) - 1 / 2)
     \<and> length (orders cs lo) = length cs"
proof (induction t lo and cs lo rule: order_at_orders.induct)
  case (1 i l cs lo)
  show ?case
  proof (cases "cs = []")
    case True
    then show ?thesis by simp
  next
    case False
    with 1 have b: "\<forall>v\<in>set (orders cs lo). lo + 1 / 2 \<le> v \<and> v \<le> lo + real (sum_list (map extent cs)) - 1 / 2"
      and len: "length (orders cs lo) = length cs"
      by simp_all
    from len False have "orders cs lo \<noteq> []" by auto
    from median_bounds [OF this b] False show ?thesis by simp
  qed
next
  case (2 lo)
  then show ?case by simp
next
  case (3 c cs lo)
  then show ?case by (fastforce simp: algebra_simps)
qed

lemma sorted_orders: "sorted_wrt (\<lambda>a b. a + 1 \<le> b) (orders cs lo)"
  by (simp add: order_bounds)

lemma place_apart:
  fixes gap :: real
  assumes gap: "0 \<le> gap"
  shows "(\<forall>q. fst (pos (p @ q)) = gap * order_path t lo q) \<Longrightarrow>
           \<forall>h\<in>subnodes (place pos d p t). sorted_wrt (\<lambda>a b. hx a + gap \<le> hx b) (hchildren h)"
    and "(\<forall>j<length cs. \<forall>q. fst (pos (p @ (k + j) # q))
              = gap * order_path (cs ! j) (lo + real (sum_list (map extent (take j cs)))) q) \<Longrightarrow>
           (\<forall>h\<in>(\<Union>c\<in>set (place_kids pos d p k cs). subnodes c).
               sorted_wrt (\<lambda>a b. hx a + gap \<le> hx b) (hchildren h))
         \<and> map hx (place_kids pos d p k cs) = map (\<lambda>v. gap * v) (orders cs lo)"
proof (induction pos d p t and pos d p k cs arbitrary: lo and lo rule: place_place_kids.induct)
  case (1 pos d p i l cs)
  have "\<forall>j<length cs. \<forall>q. fst (pos (p @ (0 + j) # q))
              = gap * order_path (cs ! j) (lo + real (sum_list (map extent (take j cs)))) q"
  proof (intro allI impI)
    fix j q
    assume "j < length cs"
    with "1.prems" [rule_format, of "j # q"]
    show "fst (pos (p @ (0 + j) # q))
              = gap * order_path (cs ! j) (lo + real (sum_list (map extent (take j cs)))) q"
      by simp
  qed
  from "1.IH" [OF this]
  have kids: "\<forall>h\<in>(\<Union>c\<in>set (place_kids pos (Suc d) p 0 cs). subnodes c).
               sorted_wrt (\<lambda>a b. hx a + gap \<le> hx b) (hchildren h)"
    and hxs: "map hx (place_kids pos (Suc d) p 0 cs) = map (\<lambda>v. gap * v) (orders cs lo)"
    by simp_all
  have "sorted_wrt (\<lambda>a b. gap * a + gap \<le> gap * b) (orders cs lo)"
  proof (rule sorted_wrt_mono_rel [OF _ sorted_orders])
    fix a b :: real
    assume "a + 1 \<le> b"
    with gap have "gap * (a + 1) \<le> gap * b" by (rule mult_left_mono [rotated])
    then show "gap * a + gap \<le> gap * b" by (simp add: algebra_simps)
  qed
  then have "sorted_wrt (\<lambda>a b. a + gap \<le> b) (map (\<lambda>v. gap * v) (orders cs lo))"
    by (simp add: sorted_wrt_map)
  then have "sorted_wrt (\<lambda>a b. a + gap \<le> b) (map hx (place_kids pos (Suc d) p 0 cs))"
    by (simp only: hxs)
  then have self: "sorted_wrt (\<lambda>a b. hx a + gap \<le> hx b) (place_kids pos (Suc d) p 0 cs)"
    by (simp add: sorted_wrt_map)
  from kids self show ?case by simp
next
  case (2 pos d p k)
  then show ?case by simp
next
  case (3 pos d p k c cs)
  have c: "\<forall>q. fst (pos ((p @ [k]) @ q)) = gap * order_path c lo q"
    using "3.prems" [rule_format, of 0] by simp
  have cs: "\<forall>j<length cs. \<forall>q. fst (pos (p @ (Suc k + j) # q))
              = gap * order_path (cs ! j) (lo + real (extent c) + real (sum_list (map extent (take j cs)))) q"
  proof (intro allI impI)
    fix j q
    assume "j < length cs"
    with "3.prems" [rule_format, of "Suc j" q]
    show "fst (pos (p @ (Suc k + j) # q))
              = gap * order_path (cs ! j) (lo + real (extent c) + real (sum_list (map extent (take j cs)))) q"
      by (simp add: add.assoc)
  qed
  from c [rule_format, of "[]"] have hx: "hx (place pos d (p @ [k]) c) = gap * order_at c lo"
    by (cases c) simp
  from "3.IH"(1) [OF c] "3.IH"(2) [OF cs] hx show ?case by auto
qed

lemma tidy_tree_apart:
  assumes "0 \<le> gap"
  shows "siblings_apart gap (d3_tree tidy_tree (gap, dy) vd)"
proof -
  have "\<forall>q. fst (tidy_tree (gap, dy) vd ([] @ q)) = gap * order_path vd 0 q"
    by (simp add: tidy_tree_def)
  from place_apart(1) [OF assms this]
  show ?thesis by (simp add: siblings_apart_def set_descendants d3_tree_def)
qed

text \<open>
  C3 (as amended). For a sibling gap \<open>nodeSpacing.y\<close> that is not negative, the
  tidy-tree routine puts the children of every node in input order, each at least that gap
  from the next. Where the tree layout does so: in the
  first variant, whose boxes are all 44 high, no two sibling boxes have overlapping vertical
  spans when \<open>nodeSpacing.y\<close> is more than 44; in the second variant, whose boxes
  are 20 a line and 36 high, no two siblings whose half heights sum to less than
  \<open>nodeSpacing.y\<close> have overlapping vertical spans.
\<close>

theorem siblings_do_not_overlap:
  "(0 \<le> gap \<longrightarrow> siblings_apart gap (d3_tree tidy_tree (gap, dy) vd))
   \<and> (siblings_apart (nodeSpacing_y P1) (placed_v1 tree_fn P1 vd) \<and> 44 < nodeSpacing_y P1 \<longrightarrow>
      (\<exists>L N. layout_v1 tree_fn P1 E (Some vd) = Inr L
        \<and> nodes L = map N (descendants (placed_v1 tree_fn P1 vd))
        \<and> (\<forall>p\<in>set (descendants (placed_v1 tree_fn P1 vd)).
              sorted_wrt (\<lambda>a b. bottom_of (N a) < top_of (N b)) (hchildren p))))
   \<and> (siblings_apart (nodeSpacing_y P) (placed_v2 tree_fn P vd) \<longrightarrow>
      (\<exists>L c N. layout_v2 tree_fn doc P E (Some vd) canvas = (Inr L, c)
        \<and> nodes L = map N (descendants (placed_v2 tree_fn P vd))
        \<and> (\<forall>h. boxH (N h) = real (length (lines (N h))) * 20 + 36)
        \<and> (\<forall>p\<in>set (descendants (placed_v2 tree_fn P vd)).
              sorted_wrt (\<lambda>a b. boxH (N a) / 2 + boxH (N b) / 2 < nodeSpacing_y P
                                   \<longrightarrow> bottom_of (N a) < top_of (N b)) (hchildren p))))"
  using layout_v1_siblings layout_v2_siblings tidy_tree_apart by blast

section \<open>Layouts of small trees\<close>


definition ex_pair :: tnode where
  "ex_pair = TNode (JStr ''r'') (JStr ''Root'') [TNode (JStr ''a'') (JStr ''A'') []]"

definition ex_siblings :: tnode where
  "ex_siblings = TNode (JStr ''r'') (JStr ''Root'')
     [TNode (JStr ''a'') (JStr ''A'') [], TNode (JStr ''b'') (JStr ''B'') []]"

definition long_label :: json where
  "long_label = JStr (join '' '' (replicate 6 ''mmmmmmmmmmmmmmmm''))"

definition ex_long :: tnode where
  "ex_long = TNode (JStr ''r'') (JStr ''Root'')
     [TNode (JStr ''a'') long_label [], TNode (JStr ''b'') long_label []]"

lemmas layout_eval =
  d3_tree_def descendants_def hlinks_def node_v1_def node_v2_def scan_v1_def scan_v2_def
  link_v1_def link_v2_def Map_of_def shift_node_def tidy_tree_def LABEL_X_def wrapText_def wrap_step_def
  measureText_def split_space.simps Math_max_all_def minus_jsnum_def median_def
  default_props1_def default_props_def fixed_pitch_def
  FONT_def LINE_HEIGHT_def MAX_TEXT_WIDTH_def PADDING_X_def PADDING_Y_def CONNECTOR_RADIUS_def
  Let_def

lemmas extent_eval = left_of_def right_of_v1_def right_of_v2_def top_of_def bottom_of_def



text \<open>
  C4. In the second variant the source of a link is not on the trailing edge of the parent's
  box. For the root \<open>r\<close> with the one child \<open>a\<close>, the link starts at
  \<open>(80, 108)\<close>, which is the anchor \<open>(x, y)\<close> of the root, at the leading
  end of the root's box, 76 wide; its target is the child's anchor moved right by
  \<open>CONNECTOR_RADIUS\<close>. The first variant's link, on the same tree, starts at
  \<open>199 = 60 + 21 + 118\<close>, the anchor of the root moved right by \<open>LABEL_X\<close>
  and the width of the root's box.
\<close>

theorem link_source_at_parent_anchor:
  "fst (layout_v2 tidy_tree fixed_pitch default_props {JStr ''r''} (Some ex_pair) None)
   = Inr \<lparr>nodes = [\<lparr>x = Fin 80, y = Fin 108, pid = JStr ''r'', plabel = JStr ''Root'',
                     depth = 0, hasChildren = True, boxW = Fin 76, boxH = 56, lines = [''Root'']\<rparr>,
                   \<lparr>x = Fin 460, y = Fin 108, pid = JStr ''a'', plabel = JStr ''A'',
                     depth = 1, hasChildren = False, boxW = Fin 52, boxH = 56, lines = [''A'']\<rparr>],
          links = [\<lparr>lid = ''r-a'', source = \<lparr>x = Fin 80, y = Fin 108\<rparr>,
                     target = \<lparr>x = Fin 469, y = Fin 108\<rparr>\<rparr>],
          bounds = \<lparr>maxX = Fin 632, maxY = Fin 216\<rparr>\<rparr>
   \<and> layout_v1 tidy_tree default_props1 {JStr ''r''} (Some ex_pair)
   = Inr \<lparr>nodes = [\<lparr>x = Fin 60, y = Fin 82, pid = JStr ''r'', plabel = JStr ''Root'',
                     depth = 0, hasChildren = True, boxW = Fin 118, boxH = 44\<rparr>,
                   \<lparr>x = Fin 420, y = Fin 82, pid = JStr ''a'', plabel = JStr ''A'',
                     depth = 1, hasChildren = False, boxW = Fin 118, boxH = 44\<rparr>],
          links = [\<lparr>lid = ''r__a'', source = \<lparr>x = Fin 199, y = Fin 82\<rparr>,
                     target = \<lparr>x = Fin 441, y = Fin 82\<rparr>\<rparr>],
          bounds = \<lparr>maxX = Fin 619, maxY = Fin 164, minX = Fin 60, minY = Fin 60\<rparr>\<rparr>"
proof (intro conjI)
  show "fst (layout_v2 tidy_tree fixed_pitch default_props {JStr ''r''} (Some ex_pair) None)
   = Inr \<lparr>nodes = [\<lparr>x = Fin 80, y = Fin 108, pid = JStr ''r'', plabel = JStr ''Root'',
                     depth = 0, hasChildren = True, boxW = Fin 76, boxH = 56, lines = [''Root'']\<rparr>,
                   \<lparr>x = Fin 460, y = Fin 108, pid = JStr ''a'', plabel = JStr ''A'',
                     depth = 1, hasChildren = False, boxW = Fin 52, boxH = 56, lines = [''A'']\<rparr>],
          links = [\<lparr>lid = ''r-a'', source = \<lparr>x = Fin 80, y = Fin 108\<rparr>,
                     target = \<lparr>x = Fin 469, y = Fin 108\<rparr>\<rparr>],
          bounds = \<lparr>maxX = Fin 632, maxY = Fin 216\<rparr>\<rparr>"
    by (simp add: layout_v2_def ex_pair_def layout_eval)
  show "layout_v1 tidy_tree default_props1 {JStr ''r''} (Some ex_pair)
   = Inr \<lparr>nodes = [\<lparr>x = Fin 60, y = Fin 82, pid = JStr ''r'', plabel = JStr ''Root'',
                     depth = 0, hasChildren = True, boxW = Fin 118, boxH = 44\<rparr>,
                   \<lparr>x = Fin 420, y = Fin 82, pid = JStr ''a'', plabel = JStr ''A'',
                     depth = 1, hasChildren = False, boxW = Fin 118, boxH = 44\<rparr>],
          links = [\<lparr>lid = ''r__a'', source = \<lparr>x = Fin 199, y = Fin 82\<rparr>,
                     target = \<lparr>x = Fin 441, y = Fin 82\<rparr>\<rparr>],
          bounds = \<lparr>maxX = Fin 619, maxY = Fin 164, minX = Fin 60, minY = Fin 60\<rparr>\<rparr>"
    by (simp add: layout_v1_def ex_pair_def layout_eval)
qed

theorem siblings_do_not_overlap_witness:
  "0 \<le> nodeSpacing_y default_props1
   \<and> siblings_apart (nodeSpacing_y default_props1) (placed_v1 tidy_tree default_props1 ex_siblings)
   \<and> 44 < nodeSpacing_y default_props1
   \<and> (\<exists>L N. layout_v1 tidy_tree default_props1 {JStr ''r''} (Some ex_siblings) = Inr L
        \<and> nodes L = map N (descendants (placed_v1 tidy_tree default_props1 ex_siblings))
        \<and> (\<forall>p\<in>set (descendants (placed_v1 tidy_tree default_props1 ex_siblings)).
              sorted_wrt (\<lambda>a b. bottom_of (N a) < top_of (N b)) (hchildren p)))
   \<and> map (\<lambda>n. (pid n, top_of n, bottom_of n))
       (nodes (projr (layout_v1 tidy_tree default_props1 {JStr ''r''} (Some ex_siblings))))
     = [(JStr ''r'', Fin 120, Fin 164), (JStr ''a'', Fin 60, Fin 104), (JStr ''b'', Fin 180, Fin 224)]
   \<and> siblings_apart (nodeSpacing_y default_props) (placed_v2 tidy_tree default_props ex_siblings)
   \<and> (\<exists>L c N. layout_v2 tidy_tree fixed_pitch default_props {JStr ''r''} (Some ex_siblings) None = (Inr L, c)
        \<and> nodes L = map N (descendants (placed_v2 tidy_tree default_props ex_siblings))
        \<and> (\<forall>h. boxH (N h) = real (length (lines (N h))) * 20 + 36)
        \<and> (\<forall>p\<in>set (descendants (placed_v2 tidy_tree default_props ex_siblings)).
              sorted_wrt (\<lambda>a b. boxH (N a) / 2 + boxH (N b) / 2 < nodeSpacing_y default_props
                                   \<longrightarrow> bottom_of (N a) < top_of (N b)) (hchildren p)))"
proof -
  have g0: "0 \<le> nodeSpacing_y default_props1" by (simp add: default_props1_def)
  have g1: "44 < nodeSpacing_y default_props1" by (simp add: default_props1_def)
  have g2: "0 \<le> nodeSpacing_y default_props" by (simp add: default_props_def)
  note s1 = siblings_do_not_overlap [where gap = "nodeSpacing_y default_props1"
      and dy = "nodeSpacing_x default_props1" and vd = ex_siblings and ?P1.0 = default_props1
      and tree_fn = tidy_tree and E = "{JStr ''r''}" and P = default_props and doc = fixed_pitch
      and canvas = None]
  note s2 = siblings_do_not_overlap [where gap = "nodeSpacing_y default_props"
      and dy = "nodeSpacing_x default_props" and vd = ex_siblings and ?P1.0 = default_props1
      and tree_fn = tidy_tree and E = "{JStr ''r''}" and P = default_props and doc = fixed_pitch
      and canvas = None]
  from s1 [THEN conjunct1, THEN mp, OF g0]
  have a1: "siblings_apart (nodeSpacing_y default_props1) (placed_v1 tidy_tree default_props1 ex_siblings)"
    by (simp add: placed_v1_def)
  from s2 [THEN conjunct1, THEN mp, OF g2]
  have a2: "siblings_apart (nodeSpacing_y default_props) (placed_v2 tidy_tree default_props ex_siblings)"
    by (simp add: placed_v2_def)
  have e: "map (\<lambda>n. (pid n, top_of n, bottom_of n))
       (nodes (projr (layout_v1 tidy_tree default_props1 {JStr ''r''} (Some ex_siblings))))
     = [(JStr ''r'', Fin 120, Fin 164), (JStr ''a'', Fin 60, Fin 104), (JStr ''b'', Fin 180, Fin 224)]"
    by (simp add: layout_v1_def ex_siblings_def extent_eval layout_eval)
  from s1 [THEN conjunct2, THEN conjunct1, THEN mp, OF conjI [OF a1 g1]]
       s1 [THEN conjunct2, THEN conjunct2, THEN mp, OF a2] g0 a1 g1 e a2
  show ?thesis by (intro conjI)
qed

text \<open>
  C3 as stated fails. In the second variant under the default props, two siblings whose
  labels wrap to six lines are 140 apart and 156 high: their boxes span
  \<open>[80, 236]\<close> and \<open>[220, 376]\<close>. In the first variant under
  \<open>nodeSpacing.y = 40\<close> the boxes of two siblings span \<open>[60, 104]\<close> and
  \<open>[100, 144]\<close>.
\<close>

theorem sibling_boxes_overlap:
  "map (\<lambda>n. (pid n, top_of n, bottom_of n))
     (nodes (projr (fst (layout_v2 tidy_tree fixed_pitch default_props {JStr ''r''} (Some ex_long) None))))
   = [(JStr ''r'', Fin 200, Fin 256), (JStr ''a'', Fin 80, Fin 236), (JStr ''b'', Fin 220, Fin 376)]
   \<and> map (\<lambda>n. (pid n, top_of n, bottom_of n))
     (nodes (projr (layout_v1 tidy_tree (default_props1\<lparr>nodeSpacing_y := 40\<rparr>) {JStr ''r''} (Some ex_siblings))))
   = [(JStr ''r'', Fin 80, Fin 124), (JStr ''a'', Fin 60, Fin 104), (JStr ''b'', Fin 100, Fin 144)]"
proof (intro conjI)
  have l: "String_js long_label
    = ''mmmmmmmmmmmmmmmm mmmmmmmmmmmmmmmm mmmmmmmmmmmmmmmm mmmmmmmmmmmmmmmm mmmmmmmmmmmmmmmm mmmmmmmmmmmmmmmm''"
    by (simp add: long_label_def eval_nat_numeral)
  have w: "fst (wrapText fixed_pitch long_label MAX_TEXT_WIDTH c)
    = replicate 6 ''mmmmmmmmmmmmmmmm''" for c
    by (simp add: wrapText_def l layout_eval eval_nat_numeral split: prod.splits)
  have wl: "wrapped fixed_pitch long_label = replicate 6 ''mmmmmmmmmmmmmmmm''"
    by (simp add: wrapped_def w)
  have wr: "wrapped fixed_pitch (JStr ''Root'') = [''Root'']"
    by (simp add: wrapped_def wrapText_def layout_eval)
  have tw: "text_width fixed_pitch t = 8 * real (length t)" for t
    by (simp add: text_width_def fixed_pitch_def)
  show "map (\<lambda>n. (pid n, top_of n, bottom_of n))
     (nodes (projr (fst (layout_v2 tidy_tree fixed_pitch default_props {JStr ''r''} (Some ex_long) None))))
   = [(JStr ''r'', Fin 200, Fin 256), (JStr ''a'', Fin 80, Fin 236), (JStr ''b'', Fin 220, Fin 376)]"
    by (simp add: layout_v2_Some placed_v2_def ex_long_def scanned_v2_def node_of_v2_def wl wr tw
          extent_eval d3_tree_def descendants_def scan_v2_def shift_node_def tidy_tree_def
          Math_max_all_def minus_jsnum_def median_def default_props_def
          LINE_HEIGHT_def PADDING_X_def PADDING_Y_def eval_nat_numeral)
  show "map (\<lambda>n. (pid n, top_of n, bottom_of n))
     (nodes (projr (layout_v1 tidy_tree (default_props1\<lparr>nodeSpacing_y := 40\<rparr>) {JStr ''r''} (Some ex_siblings))))
   = [(JStr ''r'', Fin 80, Fin 124), (JStr ''a'', Fin 60, Fin 104), (JStr ''b'', Fin 100, Fin 144)]"
    by (simp add: layout_v1_def ex_siblings_def extent_eval layout_eval)
qed

section \<open>Properties of the links\<close>

lemma Map_of_Some: "Map_of (map (\<lambda>n. (pid n, n)) ns) k = Some v \<Longrightarrow> v \<in> set ns \<and> pid v = k"
  by (auto simp: Map_of_def dest!: map_of_SomeD)

lemma link_v1_ends:
  assumes "link_v1 P (Map_of (map (\<lambda>n. (pid n, n)) ns)) h = Some l"
  shows "\<exists>s\<in>set ns. \<exists>t\<in>set ns. pid s = nid (hdata (fst h)) \<and> pid t = nid (hdata (snd h))
           \<and> source l = \<lparr>x = x s + Fin (nodeRadius P + nodeLabelGap P) + boxW s, y = y s\<rparr>
           \<and> target l = \<lparr>x = x t + Fin (nodeRadius P + nodeLabelGap P), y = y t\<rparr>"
  using assms
  by (fastforce simp: link_v1_def Let_def LABEL_X_def split: option.splits dest!: Map_of_Some)

lemma link_v2_ends:
  assumes "link_v2 (Map_of (map (\<lambda>n. (pid n, n)) ns)) h = Some l"
  shows "\<exists>s\<in>set ns. \<exists>t\<in>set ns. pid s = nid (hdata (fst h)) \<and> pid t = nid (hdata (snd h))
           \<and> source l = \<lparr>x = x s, y = y s\<rparr>
           \<and> target l = \<lparr>x = x t + Fin CONNECTOR_RADIUS, y = y t\<rparr>"
  using assms
  by (fastforce simp: link_v2_def split: option.splits dest!: Map_of_Some)

lemma those_list_all2:
  "those (map f hs) = Some ls \<Longrightarrow> list_all2 (\<lambda>l h. f h = Some l) ls hs"
  by (induction hs arbitrary: ls) (auto split: option.splits)

text \<open>
  The layout gives one link for every edge of the hierarchy, in order, and its ends are read
  off the positioned nodes that \<open>byId\<close> holds for the ids of the parent and of the
  child: what the first variant adds to the parent's \<open>x\<close> for the source, the second
  variant leaves out, for every link.
\<close>

lemma link_ends:
  "(\<exists>L. layout_v1 tree_fn P1 E (Some vd) = Inr L
      \<and> list_all2 (\<lambda>l h. \<exists>s\<in>set (nodes L). \<exists>t\<in>set (nodes L).
            pid s = nid (hdata (fst h)) \<and> pid t = nid (hdata (snd h))
          \<and> source l = \<lparr>x = x s + Fin (nodeRadius P1 + nodeLabelGap P1) + boxW s, y = y s\<rparr>
          \<and> target l = \<lparr>x = x t + Fin (nodeRadius P1 + nodeLabelGap P1), y = y t\<rparr>)
          (links L) (hlinks (placed_v1 tree_fn P1 vd)))
   \<and> (\<exists>L c. layout_v2 tree_fn doc P E (Some vd) canvas = (Inr L, c)
      \<and> list_all2 (\<lambda>l h. \<exists>s\<in>set (nodes L). \<exists>t\<in>set (nodes L).
            pid s = nid (hdata (fst h)) \<and> pid t = nid (hdata (snd h))
          \<and> source l = \<lparr>x = x s, y = y s\<rparr>
          \<and> target l = \<lparr>x = x t + Fin CONNECTOR_RADIUS, y = y t\<rparr>)
          (links L) (hlinks (placed_v2 tree_fn P vd)))"
proof (intro conjI)
  let ?rt = "placed_v1 tree_fn P1 vd"
  let ?ns = "map (node_v1 E) (descendants ?rt)"
  let ?sx = "Fin (padding P1) - fst (scanned_v1 P1 ?ns)"
  let ?sy = "Fin (padding P1) - fst (snd (snd (scanned_v1 P1 ?ns)))"
  let ?sh = "map (shift_node ?sx ?sy) ?ns"
  let ?byId = "Map_of (map (\<lambda>n. (pid n, n)) ?sh)"
  have "list_all2 (\<lambda>l h. link_v1 P1 ?byId h = Some l)
          (map (\<lambda>l. the (link_v1 P1 ?byId l)) (hlinks ?rt)) (hlinks ?rt)"
  proof (rule those_list_all2)
    have "link_v1 P1 ?byId l \<noteq> None" if "l \<in> set (hlinks ?rt)" for l
    proof -
      obtain s n where l: "l = (s, n)" by (cases l)
      with that hlinks_ends [of s n ?rt] have "s \<in> set (descendants ?rt)" "n \<in> set (descendants ?rt)"
        by auto
      moreover have "dom ?byId = (nid \<circ> hdata) ` set (descendants ?rt)"
        by (simp add: dom_Map_of image_image comp_def)
      ultimately have "nid (hdata s) \<in> dom ?byId" "nid (hdata n) \<in> dom ?byId" by auto
      then show ?thesis by (auto simp: link_v1_def l Let_def)
    qed
    then show "those (map (link_v1 P1 ?byId) (hlinks ?rt))
        = Some (map (\<lambda>l. the (link_v1 P1 ?byId l)) (hlinks ?rt))"
      by (intro those_map_Some) auto
  qed
  then have "list_all2 (\<lambda>l h. \<exists>s\<in>set ?sh. \<exists>t\<in>set ?sh.
            pid s = nid (hdata (fst h)) \<and> pid t = nid (hdata (snd h))
          \<and> source l = \<lparr>x = x s + Fin (nodeRadius P1 + nodeLabelGap P1) + boxW s, y = y s\<rparr>
          \<and> target l = \<lparr>x = x t + Fin (nodeRadius P1 + nodeLabelGap P1), y = y t\<rparr>)
          (map (\<lambda>l. the (link_v1 P1 ?byId l)) (hlinks ?rt)) (hlinks ?rt)"
    by (rule list_all2_mono) (rule link_v1_ends)
  then show "\<exists>L. layout_v1 tree_fn P1 E (Some vd) = Inr L
      \<and> list_all2 (\<lambda>l h. \<exists>s\<in>set (nodes L). \<exists>t\<in>set (nodes L).
            pid s = nid (hdata (fst h)) \<and> pid t = nid (hdata (snd h))
          \<and> source l = \<lparr>x = x s + Fin (nodeRadius P1 + nodeLabelGap P1) + boxW s, y = y s\<rparr>
          \<and> target l = \<lparr>x = x t + Fin (nodeRadius P1 + nodeLabelGap P1), y = y t\<rparr>)
          (links L) (hlinks (placed_v1 tree_fn P1 vd))"
    by (simp only: layout_v1_Some sum.inject ex_simps simp_thms layout.simps cong: rev_conj_cong) 
next
  let ?rt = "placed_v2 tree_fn P vd"
  let ?ns = "map (node_of_v2 doc E) (descendants ?rt)"
  let ?sx = "Fin (padding P) - fst (scanned_v2 ?ns)"
  let ?sy = "Fin (padding P) - fst (snd (scanned_v2 ?ns))"
  let ?sh = "map (shift_node ?sx ?sy) ?ns"
  let ?byId = "Map_of (map (\<lambda>n. (pid n, n)) ?sh)"
  have "list_all2 (\<lambda>l h. link_v2 ?byId h = Some l)
          (map (\<lambda>l. the (link_v2 ?byId l)) (hlinks ?rt)) (hlinks ?rt)"
  proof (rule those_list_all2)
    have "link_v2 ?byId l \<noteq> None" if "l \<in> set (hlinks ?rt)" for l
    proof -
      obtain s n where l: "l = (s, n)" by (cases l)
      with that hlinks_ends [of s n ?rt] have "s \<in> set (descendants ?rt)" "n \<in> set (descendants ?rt)"
        by auto
      moreover have "dom ?byId = (nid \<circ> hdata) ` set (descendants ?rt)"
        by (simp add: dom_Map_of image_image comp_def)
      ultimately have "nid (hdata s) \<in> dom ?byId" "nid (hdata n) \<in> dom ?byId" by auto
      then show ?thesis by (auto simp: link_v2_def l Let_def)
    qed
    then show "those (map (link_v2 ?byId) (hlinks ?rt))
        = Some (map (\<lambda>l. the (link_v2 ?byId l)) (hlinks ?rt))"
      by (intro those_map_Some) auto
  qed
  then have "list_all2 (\<lambda>l h. \<exists>s\<in>set ?sh. \<exists>t\<in>set ?sh.
            pid s = nid (hdata (fst h)) \<and> pid t = nid (hdata (snd h))
          \<and> source l = \<lparr>x = x s, y = y s\<rparr>
          \<and> target l = \<lparr>x = x t + Fin CONNECTOR_RADIUS, y = y t\<rparr>)
          (map (\<lambda>l. the (link_v2 ?byId l)) (hlinks ?rt)) (hlinks ?rt)"
    by (rule list_all2_mono) (rule link_v2_ends)
  then show "\<exists>L c. layout_v2 tree_fn doc P E (Some vd) canvas = (Inr L, c)
      \<and> list_all2 (\<lambda>l h. \<exists>s\<in>set (nodes L). \<exists>t\<in>set (nodes L).
            pid s = nid (hdata (fst h)) \<and> pid t = nid (hdata (snd h))
          \<and> source l = \<lparr>x = x s, y = y s\<rparr>
          \<and> target l = \<lparr>x = x t + Fin CONNECTOR_RADIUS, y = y t\<rparr>)
          (links L) (hlinks (placed_v2 tree_fn P vd))"
    by (simp only: layout_v2_Some) simp
qed

end
